theory Spec2Isabelle
  imports Complex_Main "HOL-Library.AList" "HOL-Library.Multiset"
begin

section \<open>Data model\<close>

text \<open>
  The repository holds two scripts. \<^verbatim>\<open>src/script.ts\<close> fetches the holders of each token
  through a rate limiter, prices them and keeps the addresses that hold at least a minimum
  number of the tokens (\<^verbatim>\<open>findHoldersWithMinTokens\<close>). The second script
  (\<^verbatim>\<open>unnamed/part_000\<close>) fetches the holders directly and intersects them
  (\<^verbatim>\<open>findCommonHolders\<close>). Both declare a function \<^verbatim>\<open>getTokenHolders\<close>; the one of
  the second script carries the suffix \<open>_p0\<close> here.

  A TypeScript \<^verbatim>\<open>number\<close> is an IEEE 754 double. It is modelled by the real number it
  stands for, and each \<^verbatim>\<open>+\<close> and \<^verbatim>\<open>*\<close> of the scripts rounds its exact result to a
  double (section \<open>Arithmetic on doubles\<close>). The infinities, NaN and the sign of zero are
  left out: results are taken to stay below the overflow threshold \<open>2 ^ 1024\<close>.
  A JavaScript \<^verbatim>\<open>Map\<close> iterates in insertion order
  and \<^verbatim>\<open>set\<close> on a present key keeps the key's position, which is what
  \<^const>\<open>AList.update\<close> does on an association list; \<^verbatim>\<open>get\<close> is \<^const>\<open>map_of\<close>.
\<close>

type_synonym number = real

section \<open>Arithmetic on doubles\<close>

text \<open>
  The doubles around a real \<open>x\<close> are the whole multiples of the quantum of \<open>x\<close>: with
  \<open>2 ^ e \<le> \<bar>x\<bar> < 2 ^ (e + 1)\<close> the quantum is \<open>2 ^ (e - 52)\<close>, a significand of 53 bits, and
  below the smallest normal number \<open>2 ^ - 1022\<close> it stays \<open>2 ^ - 1074\<close>. Rounding to
  nearest takes the nearest multiple and, half way between two of them, the even one.
\<close>

definition roundHalfEven :: "real \<Rightarrow> int" where
  "roundHalfEven x =
     (let n = \<lfloor>x\<rfloor>; d = x - of_int n
      in if d < 1 / 2 then n else if 1 / 2 < d then n + 1 else if even n then n else n + 1)"

definition quantum :: "real \<Rightarrow> real" where
  "quantum x = 2 powr (of_int (max \<lfloor>log 2 \<bar>x\<bar>\<rfloor> (- 1022)) - 52)"

definition double :: "real \<Rightarrow> number" where
  "double x = (if x = 0 then 0 else quantum x * of_int (roundHalfEven (x / quantum x)))"

record TokenAccount =
  address :: string
  mint :: string
  owner :: string
  amount :: number

record TokenInfo =
  address :: string
  priceUsd :: number

text \<open>
  \<^verbatim>\<open>TokenHolder\<close> has the optional field \<^verbatim>\<open>valueUsd\<close> in \<^verbatim>\<open>script.ts\<close> and no such field
  in the second script, whose holders are the ones with \<open>valueUsd = None\<close>.
\<close>

record TokenHolder =
  address :: string
  amount :: number
  valueUsd :: "number option"

record HolderSummary =
  address :: string
  tokenCount :: nat
  holdings :: "(string \<times> TokenHolder) list"
  totalValueUsd :: number

text \<open>
  What one \<^verbatim>\<open>fetch\<close> of a page resolves to: the HTTP status line and the
  \<^verbatim>\<open>result.token_accounts\<close> of the JSON body, \<open>None\<close> when the body has no
  \<^verbatim>\<open>result\<close>. The transport is taken to deliver a response with a body of this shape.
  The amounts in it are the doubles that \<^verbatim>\<open>response.json()\<close> made of the numerals of the
  body.
\<close>

record response =
  status :: nat
  statusText :: string
  result :: "TokenAccount list option"

text \<open>\<^verbatim>\<open>response.ok\<close> of the fetch API: the status is in the range 200 to 299.\<close>

definition ok :: "response \<Rightarrow> bool" where
  "ok r = (200 \<le> status r \<and> status r < 300)"

text \<open>
  The errors the two scripts throw: the \<^verbatim>\<open>Error\<close> built from a failed response's status
  and status text, the \<^verbatim>\<open>Error\<close> about the minimum number of tokens, and the
  \<^verbatim>\<open>TypeError\<close> of spreading \<^verbatim>\<open>undefined\<close>.
\<close>

datatype error =
    FetchError nat string
  | MinTokensError
  | TypeError

text \<open>
  What a run does to the outside, in order: a \<^verbatim>\<open>getTokenAccounts\<close> request for a page of
  a mint (always with limit 1000), and a \<^verbatim>\<open>setTimeout\<close> pause given in milliseconds.
\<close>

datatype event =
    Fetch string nat
  | Wait nat

text \<open>
  An asynchronous function is run against the list of responses its requests receive, one
  per request in order. Its outcome is \<open>None\<close> while it still awaits a response the list
  does not hold, \<open>Some (Inl e)\<close> when it throws \<open>e\<close> and \<open>Some (Inr v)\<close> when it
  returns \<open>v\<close>.
\<close>

type_synonym 'a outcome = "(error + 'a) option"

section \<open>Sorting an array with a comparator\<close>

text \<open>
  \<^verbatim>\<open>Array.prototype.sort\<close> is stable: an element moves before another one only when the
  comparator is positive on the pair the other way round. It is modelled by a stable
  insertion sort. The comparators of the scripts subtract two doubles; the rounded
  difference of two doubles has the sign of the exact one and is zero only when they are
  equal, so the sort is given the exact difference.
\<close>

fun insort_cmp :: "('a \<Rightarrow> 'a \<Rightarrow> number) \<Rightarrow> 'a \<Rightarrow> 'a list \<Rightarrow> 'a list" where
  "insort_cmp cmp x [] = [x]"
| "insort_cmp cmp x (y # ys) =
     (if cmp x y \<le> 0 then x # y # ys else y # insort_cmp cmp x ys)"

definition array_sort :: "('a \<Rightarrow> 'a \<Rightarrow> number) \<Rightarrow> 'a list \<Rightarrow> 'a list" where
  "array_sort cmp xs = foldr (insort_cmp cmp) xs []"

section \<open>The holder fetcher of script.ts\<close>

text \<open>
  The body of the \<^verbatim>\<open>forEach\<close> over a page's accounts: the owner's amount so far (0 when
  the owner is new) plus the account's amount, stored with its value in USD. The sum and the
  product are those of doubles.
\<close>

definition addAccount ::
  "number \<Rightarrow> (string \<times> TokenHolder) list \<Rightarrow> TokenAccount \<Rightarrow> (string \<times> TokenHolder) list" where
  "addAccount price holders account =
     (let currentHolder = map_of holders (TokenAccount.owner account);
          newAmount = double ((case currentHolder of None \<Rightarrow> 0 | Some h \<Rightarrow> TokenHolder.amount h)
                              + TokenAccount.amount account)
      in AList.update (TokenAccount.owner account)
           \<lparr>TokenHolder.address = TokenAccount.owner account,
            TokenHolder.amount = newAmount,
            TokenHolder.valueUsd = Some (double (newAmount * price))\<rparr>
           holders)"

text \<open>
  The \<^verbatim>\<open>while (true)\<close> loop, from the state \<open>page\<close> and \<open>holders\<close>, against the responses
  still to come. Every iteration requests \<open>page\<close>. Status 429 pauses a second and repeats the
  iteration; another failed status throws; a body without result or with no accounts ends
  the loop; otherwise the accounts are added and the next page is asked for.
\<close>

fun fetchPages ::
  "string \<Rightarrow> number \<Rightarrow> nat \<Rightarrow> (string \<times> TokenHolder) list \<Rightarrow> response list
     \<Rightarrow> event list \<times> (string \<times> TokenHolder) list outcome" where
  "fetchPages mintAddress price page holders [] = ([Fetch mintAddress page], None)"
| "fetchPages mintAddress price page holders (r # rs) =
     (if \<not> ok r then
        (if status r = 429 then
           (case fetchPages mintAddress price page holders rs of
              (tr, out) \<Rightarrow> (Fetch mintAddress page # Wait 1000 # tr, out))
         else ([Fetch mintAddress page], Some (Inl (FetchError (status r) (statusText r)))))
      else
        (case result r of
           None \<Rightarrow> ([Fetch mintAddress page], Some (Inr holders))
         | Some token_accounts \<Rightarrow>
             (if token_accounts = [] then ([Fetch mintAddress page], Some (Inr holders))
              else
                (case fetchPages mintAddress price (page + 1)
                        (foldl (addAccount price) holders token_accounts) rs of
                   (tr, out) \<Rightarrow> (Fetch mintAddress page # tr, out)))))"

text \<open>
  \<^verbatim>\<open>getTokenHolders\<close>: the loop from page 1 and an empty map, then the map's values sorted
  by descending amount. The \<^verbatim>\<open>catch\<close> logs and rethrows, so an error passes unchanged.
\<close>

definition getTokenHolders ::
  "string \<Rightarrow> number \<Rightarrow> response list \<Rightarrow> event list \<times> TokenHolder list outcome" where
  "getTokenHolders mintAddress price rs =
     (case fetchPages mintAddress price 1 [] rs of
        (tr, None) \<Rightarrow> (tr, None)
      | (tr, Some (Inl e)) \<Rightarrow> (tr, Some (Inl e))
      | (tr, Some (Inr holders)) \<Rightarrow>
          (tr, Some (Inr (array_sort (\<lambda>a b. TokenHolder.amount b - TokenHolder.amount a)
                            (map snd holders)))))"

section \<open>The holder fetcher of the second script\<close>

text \<open>Its map goes from the owner to the amount alone; the sum is that of doubles.\<close>

definition addAccount_p0 ::
  "(string \<times> number) list \<Rightarrow> TokenAccount \<Rightarrow> (string \<times> number) list" where
  "addAccount_p0 holders account =
     (let currentAmount = (case map_of holders (TokenAccount.owner account) of
                             None \<Rightarrow> 0 | Some a \<Rightarrow> a)
      in AList.update (TokenAccount.owner account)
           (double (currentAmount + TokenAccount.amount account)) holders)"

text \<open>Its loop has no branch for status 429: every failed status throws.\<close>

fun fetchPages_p0 ::
  "string \<Rightarrow> nat \<Rightarrow> (string \<times> number) list \<Rightarrow> response list
     \<Rightarrow> event list \<times> (string \<times> number) list outcome" where
  "fetchPages_p0 mintAddress page holders [] = ([Fetch mintAddress page], None)"
| "fetchPages_p0 mintAddress page holders (r # rs) =
     (if \<not> ok r then
        ([Fetch mintAddress page], Some (Inl (FetchError (status r) (statusText r))))
      else
        (case result r of
           None \<Rightarrow> ([Fetch mintAddress page], Some (Inr holders))
         | Some token_accounts \<Rightarrow>
             (if token_accounts = [] then ([Fetch mintAddress page], Some (Inr holders))
              else
                (case fetchPages_p0 mintAddress (page + 1)
                        (foldl addAccount_p0 holders token_accounts) rs of
                   (tr, out) \<Rightarrow> (Fetch mintAddress page # tr, out)))))"

definition getTokenHolders_p0 ::
  "string \<Rightarrow> response list \<Rightarrow> event list \<times> TokenHolder list outcome" where
  "getTokenHolders_p0 mintAddress rs =
     (case fetchPages_p0 mintAddress 1 [] rs of
        (tr, None) \<Rightarrow> (tr, None)
      | (tr, Some (Inl e)) \<Rightarrow> (tr, Some (Inl e))
      | (tr, Some (Inr holders)) \<Rightarrow>
          (tr, Some (Inr (array_sort (\<lambda>a b. TokenHolder.amount b - TokenHolder.amount a)
                            (map (\<lambda>(addr, amt).
                                    \<lparr>TokenHolder.address = addr,
                                     TokenHolder.amount = amt,
                                     TokenHolder.valueUsd = None\<rparr>) holders)))))"

section \<open>The threshold aggregation of script.ts\<close>

text \<open>
  The body of the \<^verbatim>\<open>forEach\<close> over one token's holders. A new address first gets an
  empty summary; then the address's summary is read back and changed in place: one more
  token, the holder filed under the token's address, and the holder's value (0 when it has
  none) added to the total, a sum of doubles. The summary read back is always there, so the
  branch \<open>None\<close> of the lookup is never taken.
\<close>

definition tally ::
  "TokenInfo \<Rightarrow> (string \<times> HolderSummary) list \<Rightarrow> TokenHolder \<Rightarrow> (string \<times> HolderSummary) list" where
  "tally token holderCounts holder =
     (let holderCounts1 =
            (if map_of holderCounts (TokenHolder.address holder) = None then
               AList.update (TokenHolder.address holder)
                 \<lparr>HolderSummary.address = TokenHolder.address holder,
                  tokenCount = 0, holdings = [], totalValueUsd = 0\<rparr>
                 holderCounts
             else holderCounts)
      in case map_of holderCounts1 (TokenHolder.address holder) of
           None \<Rightarrow> holderCounts1
         | Some summary \<Rightarrow>
             AList.update (TokenHolder.address holder)
               (summary
                  \<lparr>tokenCount := tokenCount summary + 1,
                   holdings := AList.update (TokenInfo.address token) holder (holdings summary),
                   totalValueUsd := double (totalValueUsd summary
                     + (case TokenHolder.valueUsd holder of None \<Rightarrow> 0 | Some v \<Rightarrow> v))\<rparr>)
               holderCounts1)"

text \<open>
  The \<^verbatim>\<open>for (const token of tokens)\<close> loop. Each token comes with the responses its
  fetch receives. A fetch that throws or never returns ends the loop with that outcome;
  otherwise the holders are stored under the token's address, tallied, and the loop pauses
  100 ms before the next token.
\<close>

fun tokenLoop ::
  "(TokenInfo \<times> response list) list \<Rightarrow> (string \<times> TokenHolder list) list
     \<Rightarrow> (string \<times> HolderSummary) list
     \<Rightarrow> event list \<times> ((string \<times> TokenHolder list) list \<times> (string \<times> HolderSummary) list) outcome"
  where
  "tokenLoop [] holderDetails holderCounts = ([], Some (Inr (holderDetails, holderCounts)))"
| "tokenLoop ((token, rs) # tokens) holderDetails holderCounts =
     (case getTokenHolders (TokenInfo.address token) (TokenInfo.priceUsd token) rs of
        (tr, None) \<Rightarrow> (tr, None)
      | (tr, Some (Inl e)) \<Rightarrow> (tr, Some (Inl e))
      | (tr, Some (Inr holders)) \<Rightarrow>
          (case tokenLoop tokens
                  (AList.update (TokenInfo.address token) holders holderDetails)
                  (foldl (tally token) holderCounts holders) of
             (tr', out) \<Rightarrow> (tr @ Wait 100 # tr', out)))"

text \<open>
  \<^verbatim>\<open>findHoldersWithMinTokens\<close> returns the pair of \<^verbatim>\<open>qualifiedHolders\<close> and
  \<^verbatim>\<open>holderDetails\<close>. The check of the minimum comes before the loop; after the loop the
  summaries with enough tokens are sorted by descending total value.
\<close>

definition findHoldersWithMinTokens ::
  "(TokenInfo \<times> response list) list \<Rightarrow> number
     \<Rightarrow> event list \<times> (HolderSummary list \<times> (string \<times> TokenHolder list) list) outcome" where
  "findHoldersWithMinTokens tokens minTokensRequired =
     (if minTokensRequired > real (length tokens) then ([], Some (Inl MinTokensError))
      else
        (case tokenLoop tokens [] [] of
           (tr, None) \<Rightarrow> (tr, None)
         | (tr, Some (Inl e)) \<Rightarrow> (tr, Some (Inl e))
         | (tr, Some (Inr (holderDetails, holderCounts))) \<Rightarrow>
             (tr, Some (Inr
                (array_sort (\<lambda>a b. totalValueUsd b - totalValueUsd a)
                   (filter (\<lambda>summary. real (tokenCount summary) \<ge> minTokensRequired)
                      (map snd holderCounts)),
                 holderDetails)))))"

section \<open>The intersection of the second script\<close>

text \<open>
  \<^verbatim>\<open>Promise.all\<close>: rejected as soon as one promise is rejected, unsettled while none is
  rejected and one is unsettled, and otherwise fulfilled with all the values in order. Of
  several rejections the first in the list is reported here; which one the run reports
  depends on the timing of the responses.
\<close>

fun promise_all :: "'a outcome list \<Rightarrow> 'a list outcome" where
  "promise_all [] = Some (Inr [])"
| "promise_all (p # ps) =
     (case p of
        Some (Inl e) \<Rightarrow> Some (Inl e)
      | None \<Rightarrow> (case promise_all ps of Some (Inl e) \<Rightarrow> Some (Inl e) | _ \<Rightarrow> None)
      | Some (Inr v) \<Rightarrow>
          (case promise_all ps of
             None \<Rightarrow> None
           | Some (Inl e) \<Rightarrow> Some (Inl e)
           | Some (Inr vs) \<Rightarrow> Some (Inr (v # vs))))"

text \<open>\<^verbatim>\<open>new Set(xs)\<close>, as the list of its elements in insertion order.\<close>

definition new_Set :: "'a list \<Rightarrow> 'a list" where
  "new_Set xs = foldl (\<lambda>s x. if x \<in> set s then s else s @ [x]) [] xs"

text \<open>
  \<^verbatim>\<open>findCommonHolders\<close> returns the pair of \<^verbatim>\<open>commonHolders\<close> and \<^verbatim>\<open>holderDetails\<close>.
  The fetches of all tokens run concurrently, each against its own responses; the order in
  which they finish is taken to be the order of the list, which only matters for the order
  of \<^verbatim>\<open>holderDetails\<close>. The intersection starts from \<^verbatim>\<open>holdersArrays[0]\<close>, and spreading it
  throws a \<^verbatim>\<open>TypeError\<close> when there is no first element.
\<close>

definition findCommonHolders ::
  "(string \<times> response list) list
     \<Rightarrow> (string list \<times> (string \<times> TokenHolder list) list) outcome" where
  "findCommonHolders tokenAddresses =
     (case promise_all
             (map (\<lambda>(mintAddress, rs).
                     case snd (getTokenHolders_p0 mintAddress rs) of
                       None \<Rightarrow> None
                     | Some (Inl e) \<Rightarrow> Some (Inl e)
                     | Some (Inr holders) \<Rightarrow> Some (Inr (mintAddress, holders)))
                tokenAddresses) of
        None \<Rightarrow> None
      | Some (Inl e) \<Rightarrow> Some (Inl e)
      | Some (Inr fetched) \<Rightarrow>
          (let holderDetails =
                 foldl (\<lambda>details (mintAddress, holders). AList.update mintAddress holders details)
                   [] fetched;
               holdersArrays =
                 map (\<lambda>(mintAddress, holders). new_Set (map TokenHolder.address holders)) fetched
           in case holdersArrays of
                [] \<Rightarrow> Some (Inl TypeError)
              | first # others \<Rightarrow>
                  Some (Inr
                    (foldl (\<lambda>commonHolders s. filter (\<lambda>holder. holder \<in> set s) commonHolders)
                       first others,
                     holderDetails))))"

section \<open>The rate limiter of script.ts\<close>

text \<open>
  The requests of \<^verbatim>\<open>getTokenHolders\<close> in \<^verbatim>\<open>script.ts\<close> go through
  \<^verbatim>\<open>rateLimiter.addToQueue\<close>, which hands the result or the error of the task to its
  caller unchanged; the fetcher above is therefore run against the responses alone. What
  the limiter adds is time, and its model makes time explicit.

  A task is known by the time at which it is submitted and by the time it takes to settle
  once called. The world holds the clock (what \<^verbatim>\<open>Date.now()\<close> returns, in
  milliseconds), the limiter's fields, the tasks not yet submitted in the order of their
  submission, the skew of each of the coming timers, and the times at which tasks were
  called, the latest first. The skew of a timer is the number of milliseconds by which the
  clock shows it to resume late; it is negative for a timer that the clock shows to resume
  early. Node measures a timer from the time its event loop last read, not from
  \<^verbatim>\<open>Date.now()\<close>, and a pause can show a millisecond short on that clock. The clock
  itself is taken not to run backwards.
\<close>

record job =
  submitted :: nat
  duration :: nat

record RateLimiter =
  queue :: "job list"
  processing :: bool
  lastRequestTime :: nat
  requestsInLastSecond :: nat

record world =
  clock :: nat
  limiter :: RateLimiter
  arrivals :: "job list"
  skew :: "int list"
  dispatched :: "nat list"

definition MAX_REQUESTS_PER_SECOND :: nat where
  "MAX_REQUESTS_PER_SECOND = 8"

text \<open>\<^verbatim>\<open>1000 / 8\<close> is 125 exactly, so the division of naturals loses nothing.\<close>

definition MIN_TIME_BETWEEN_REQUESTS :: nat where
  "MIN_TIME_BETWEEN_REQUESTS = 1000 div MAX_REQUESTS_PER_SECOND"

text \<open>
  While the dispatch loop is suspended at an \<^verbatim>\<open>await\<close> for \<open>ms\<close> milliseconds, the
  tasks submitted up to the time it resumes are pushed on the queue by
  \<^verbatim>\<open>addToQueue\<close>, which does no more than that because \<^verbatim>\<open>processing\<close> is true.
\<close>

definition elapse :: "nat \<Rightarrow> world \<Rightarrow> world" where
  "elapse ms w =
     w\<lparr>clock := clock w + ms,
       limiter := (limiter w)
         \<lparr>queue := queue (limiter w)
                     @ takeWhile (\<lambda>j. submitted j \<le> clock w + ms) (arrivals w)\<rparr>,
       arrivals := dropWhile (\<lambda>j. submitted j \<le> clock w + ms) (arrivals w)\<rparr>"

text \<open>
  \<^verbatim>\<open>await new Promise(resolve => setTimeout(resolve, ms))\<close>: the loop resumes \<open>ms\<close>
  milliseconds later, changed by the skew of the timer, and never before the timer is set.
\<close>

definition setTimeout :: "nat \<Rightarrow> world \<Rightarrow> world" where
  "setTimeout ms w =
     (case skew w of
        [] \<Rightarrow> elapse ms w
      | s # rest \<Rightarrow> elapse (nat (int ms + s)) (w\<lparr>skew := rest\<rparr>))"

definition resetCounter :: "world \<Rightarrow> world" where
  "resetCounter w = w\<lparr>limiter := (limiter w)\<lparr>requestsInLastSecond := 0\<rparr>\<rparr>"

text \<open>
  The two checks of \<^verbatim>\<open>processQueue\<close> before a task is taken, both on the \<^verbatim>\<open>now\<close> read
  at the start: at the ceiling, wait for what remains of the second since the last request
  and reset the counter; a second or more after the last request, reset the counter.
\<close>

definition throttle :: "world \<Rightarrow> world" where
  "throttle w =
     (let now = clock w;
          w' = (if requestsInLastSecond (limiter w) \<ge> MAX_REQUESTS_PER_SECOND then
                  (let timeToWait = 1000 - (int now - int (lastRequestTime (limiter w)))
                   in if timeToWait > 0 then resetCounter (setTimeout (nat timeToWait) w)
                      else w)
                else w)
      in if int now - int (lastRequestTime (limiter w')) \<ge> 1000 then resetCounter w' else w')"

text \<open>
  The task shifted off the queue is counted, the time is stored and the task is called at
  that time; the loop then awaits the task and the minimum delay between requests.
\<close>

definition issue :: "job \<Rightarrow> job list \<Rightarrow> world \<Rightarrow> world" where
  "issue task rest w =
     setTimeout MIN_TIME_BETWEEN_REQUESTS
       (elapse (duration task)
          (w\<lparr>limiter := (limiter w)
                \<lparr>queue := rest,
                 requestsInLastSecond := requestsInLastSecond (limiter w) + 1,
                 lastRequestTime := clock w\<rparr>,
              dispatched := clock w # dispatched w\<rparr>))"

text \<open>The tasks still to be called: those queued and those not yet submitted.\<close>

definition waiting :: "world \<Rightarrow> nat" where
  "waiting w = length (queue (limiter w)) + length (arrivals w)"

text \<open>
  \<^verbatim>\<open>processQueue\<close>, up to the point where the queue is found empty. When
  \<^verbatim>\<open>queue.shift()\<close> yields no task the function returns as it is.
\<close>

function processQueue :: "world \<Rightarrow> world" where
  "processQueue w =
     (if queue (limiter w) = [] then w\<lparr>limiter := (limiter w)\<lparr>processing := False\<rparr>\<rparr>
      else
        (let w' = throttle (w\<lparr>limiter := (limiter w)\<lparr>processing := True\<rparr>\<rparr>)
         in case queue (limiter w') of
              [] \<Rightarrow> w'
            | task # rest \<Rightarrow> processQueue (issue task rest w')))"
  by pat_completeness auto
termination
proof (relation "measure waiting")
  show "wf (measure waiting)" by simp
next
  fix w w' task rest
  assume w': "w' = throttle (w\<lparr>limiter := (limiter w)\<lparr>processing := True\<rparr>\<rparr>)"
    and q: "queue (limiter w') = task # rest"
  have split: "length (takeWhile P xs) + length (dropWhile P xs) = length xs"
    for P and xs :: "job list"
    by (metis length_append takeWhile_dropWhile_id)
  have e: "waiting (elapse ms v) = waiting v" for ms v
    by (simp add: waiting_def elapse_def add.assoc split)
  have t: "waiting (setTimeout ms v) = waiting v" for ms v
    using e [of _ "v\<lparr>skew := _\<rparr>"]
    by (simp add: setTimeout_def e split: list.splits) (simp add: waiting_def)
  have r: "waiting (resetCounter v) = waiting v" for v
    by (simp add: waiting_def resetCounter_def)
  have th: "waiting (throttle v) = waiting v" for v
    by (simp add: throttle_def Let_def r t)
  have pr: "waiting (v\<lparr>limiter := (limiter v)\<lparr>processing := b\<rparr>\<rparr>) = waiting v" for v b
    by (simp add: waiting_def)
  have "waiting w' = waiting w"
    by (simp only: w' th pr)
  moreover from q have "Suc (waiting (issue task rest w')) = waiting w'"
    by (simp add: issue_def t e) (simp add: waiting_def)
  ultimately show "(issue task rest w', w) \<in> measure waiting"
    by simp
qed

declare processQueue.simps [simp del]

text \<open>
  \<^verbatim>\<open>addToQueue\<close>: the task is pushed, and the dispatch loop is started when it is not
  running.
\<close>

definition addToQueue :: "job \<Rightarrow> world \<Rightarrow> world" where
  "addToQueue task w =
     (let w' = w\<lparr>limiter := (limiter w)\<lparr>queue := queue (limiter w) @ [task]\<rparr>\<rparr>
      in if \<not> processing (limiter w') then processQueue w' else w')"

text \<open>
  The whole run: whenever the dispatch loop has returned, the next task is submitted at its
  time (or at once when that time is past) by \<^verbatim>\<open>addToQueue\<close>.
\<close>

function run :: "world \<Rightarrow> world" where
  "run w =
     (case arrivals w of
        [] \<Rightarrow> w
      | task # later \<Rightarrow>
          run (addToQueue task (w\<lparr>clock := max (clock w) (submitted task), arrivals := later\<rparr>)))"
  by pat_completeness auto
termination
proof (relation "measure (\<lambda>w. length (arrivals w))")
  show "wf (measure (\<lambda>w. length (arrivals w)))" by simp
next
  fix w :: world and task later
  assume a: "arrivals w = task # later"
  have e: "length (arrivals (elapse ms v)) \<le> length (arrivals v)" for ms v
    by (simp add: elapse_def length_dropWhile_le)
  have t: "length (arrivals (setTimeout ms v)) \<le> length (arrivals v)" for ms v
    using e [of ms v] e [of _ "v\<lparr>skew := _\<rparr>"]
    by (auto simp: setTimeout_def split: list.splits)
  have th: "length (arrivals (throttle v)) \<le> length (arrivals v)" for v
    using t [of _ v] by (auto simp: throttle_def Let_def resetCounter_def)
  have i: "length (arrivals (issue x xs v)) \<le> length (arrivals v)" for x xs v
  proof -
    let ?v = "v\<lparr>limiter := (limiter v)
                \<lparr>queue := xs,
                 requestsInLastSecond := requestsInLastSecond (limiter v) + 1,
                 lastRequestTime := clock v\<rparr>,
              dispatched := clock v # dispatched v\<rparr>"
    have "length (arrivals (issue x xs v)) \<le> length (arrivals (elapse (duration x) ?v))"
      unfolding issue_def by (rule t)
    also have "\<dots> \<le> length (arrivals v)"
      using e [of "duration x" ?v] by simp
    finally show ?thesis .
  qed
  have p: "length (arrivals (processQueue v)) \<le> length (arrivals v)" for v
  proof (induction v rule: processQueue.induct)
    case (1 v)
    show ?case
    proof (cases "queue (limiter v) = []")
      case True
      then show ?thesis by (subst processQueue.simps) simp
    next
      case False
      let ?v' = "throttle (v\<lparr>limiter := (limiter v)\<lparr>processing := True\<rparr>\<rparr>)"
      have s: "length (arrivals ?v') \<le> length (arrivals v)"
        using th [of "v\<lparr>limiter := (limiter v)\<lparr>processing := True\<rparr>\<rparr>"] by simp
      show ?thesis
      proof (cases "queue (limiter ?v')")
        case Nil
        with False s show ?thesis
          by (subst processQueue.simps) (simp add: Let_def)
      next
        case (Cons x xs)
        from "1.IH" [OF False refl Cons]
        have "length (arrivals (processQueue (issue x xs ?v')))
                \<le> length (arrivals (issue x xs ?v'))" .
        also note i
        also note s
        finally show ?thesis
          by (subst processQueue.simps) (simp add: Let_def False Cons)
      qed
    qed
  qed
  let ?w = "w\<lparr>clock := max (clock w) (submitted task), arrivals := later\<rparr>"
  have "length (arrivals (addToQueue task ?w)) \<le> length later"
    using p [of "?w\<lparr>limiter := (limiter ?w)\<lparr>queue := queue (limiter ?w) @ [task]\<rparr>\<rparr>"]
    by (simp add: addToQueue_def Let_def)
  with a show "(addToQueue task ?w, w) \<in> measure (\<lambda>w. length (arrivals w))"
    by simp
qed

text \<open>
  The world at the start: the clock at \<open>t0\<close>, a fresh limiter, all tasks still to be
  submitted and nothing called yet.
\<close>

definition start :: "nat \<Rightarrow> job list \<Rightarrow> int list \<Rightarrow> world" where
  "start t0 tasks skews =
     \<lparr>clock = t0,
      limiter = \<lparr>queue = [], processing = False, lastRequestTime = 0, requestsInLastSecond = 0\<rparr>,
      arrivals = tasks, skew = skews, dispatched = []\<rparr>"

section \<open>Vocabulary of the properties\<close>

text \<open>
  A response ends the data when it is successful and carries no accounts; it is a page of
  data when it is successful and carries some; it is rate limited when its status is 429.
\<close>

definition endOfData :: "response \<Rightarrow> bool" where
  "endOfData r = (ok r \<and> (result r = None \<or> result r = Some []))"

definition dataPage :: "response \<Rightarrow> bool" where
  "dataPage r = (ok r \<and> result r \<noteq> None \<and> result r \<noteq> Some [])"

definition rateLimited :: "response \<Rightarrow> bool" where
  "rateLimited r = (status r = 429)"

definition accountsOf :: "response \<Rightarrow> TokenAccount list" where
  "accountsOf r = (case result r of None \<Rightarrow> [] | Some token_accounts \<Rightarrow> token_accounts)"

text \<open>
  The account records of the pages of data among the successful responses, up to the first
  response that ends the data, and the records of one owner among them. The balance of an
  owner is the running sum of doubles over its records in the order read, from 0; the sum
  of its amounts is the sum of real numbers. A real number is a double when rounding leaves
  it unchanged.
\<close>

definition recordsRead :: "response list \<Rightarrow> TokenAccount list" where
  "recordsRead rs = concat (map accountsOf (takeWhile dataPage (filter ok rs)))"

definition recordsOf :: "TokenAccount list \<Rightarrow> string \<Rightarrow> TokenAccount list" where
  "recordsOf recs a = filter (\<lambda>account. TokenAccount.owner account = a) recs"

definition balanceOf :: "TokenAccount list \<Rightarrow> string \<Rightarrow> number" where
  "balanceOf recs a =
     foldl (\<lambda>balance account. double (balance + TokenAccount.amount account)) 0 (recordsOf recs a)"

definition sumOfAmounts :: "TokenAccount list \<Rightarrow> string \<Rightarrow> real" where
  "sumOfAmounts recs a = sum_list (map TokenAccount.amount (recordsOf recs a))"

definition isDouble :: "real \<Rightarrow> bool" where
  "isDouble x = (double x = x)"

text \<open>The pages a run asked for, in order.\<close>

definition pagesRequested :: "event list \<Rightarrow> nat list" where
  "pagesRequested tr = concat (map (\<lambda>e. case e of Fetch m p \<Rightarrow> [p] | Wait ms \<Rightarrow> []) tr)"

text \<open>The holder a map of holders must have for an owner, in each script.\<close>

definition holderFor :: "number \<Rightarrow> TokenAccount list \<Rightarrow> string \<Rightarrow> TokenHolder" where
  "holderFor price recs a =
     \<lparr>TokenHolder.address = a, TokenHolder.amount = balanceOf recs a,
      TokenHolder.valueUsd = Some (double (balanceOf recs a * price))\<rparr>"

definition holderFor_p0 :: "TokenAccount list \<Rightarrow> string \<Rightarrow> TokenHolder" where
  "holderFor_p0 recs a =
     \<lparr>TokenHolder.address = a, TokenHolder.amount = balanceOf recs a,
      TokenHolder.valueUsd = None\<rparr>"

text \<open>The invariants of the two fetch loops over the records read so far.\<close>

definition holdersInv :: "number \<Rightarrow> TokenAccount list \<Rightarrow> (string \<times> TokenHolder) list \<Rightarrow> bool" where
  "holdersInv price recs holders \<longleftrightarrow>
     distinct (map fst holders) \<and>
     (\<forall>a. map_of holders a =
        (if a \<in> TokenAccount.owner ` set recs then Some (holderFor price recs a) else None))"

definition holdersInv_p0 :: "TokenAccount list \<Rightarrow> (string \<times> number) list \<Rightarrow> bool" where
  "holdersInv_p0 recs holders \<longleftrightarrow>
     distinct (map fst holders) \<and>
     (\<forall>a. map_of holders a =
        (if a \<in> TokenAccount.owner ` set recs then Some (balanceOf recs a) else None))"

text \<open>The events and the outcome of the fetch of one token of the list.\<close>

definition fetchTrace :: "TokenInfo \<times> response list \<Rightarrow> event list" where
  "fetchTrace = (\<lambda>(t, rs). fst (getTokenHolders (TokenInfo.address t) (TokenInfo.priceUsd t) rs))"

definition fetchOutcome :: "TokenInfo \<times> response list \<Rightarrow> TokenHolder list outcome" where
  "fetchOutcome = (\<lambda>(t, rs). snd (getTokenHolders (TokenInfo.address t) (TokenInfo.priceUsd t) rs))"

text \<open>
  The holders the fetch of each token of the list returned (none when it did not return). An
  address holds an entry of that list when it is among the entry's holders; the number of
  entries it holds, the set of their token addresses, and the running sum of doubles, from
  0 and in the order of the entries, of the values of its holders (a holder without value
  counts 0).
\<close>

definition holdersFetched :: "TokenInfo \<times> response list \<Rightarrow> TokenHolder list" where
  "holdersFetched x = (case fetchOutcome x of Some (Inr holders) \<Rightarrow> holders | _ \<Rightarrow> [])"

definition fetched ::
  "(TokenInfo \<times> response list) list \<Rightarrow> (TokenInfo \<times> TokenHolder list) list" where
  "fetched tokens = map (\<lambda>x. (fst x, holdersFetched x)) tokens"

definition holds :: "string \<Rightarrow> TokenInfo \<times> TokenHolder list \<Rightarrow> bool" where
  "holds a = (\<lambda>(t, holders). a \<in> TokenHolder.address ` set holders)"

definition tokensHeld :: "(TokenInfo \<times> TokenHolder list) list \<Rightarrow> string \<Rightarrow> nat" where
  "tokensHeld done a = length (filter (holds a) done)"

definition tokensOf :: "(TokenInfo \<times> TokenHolder list) list \<Rightarrow> string \<Rightarrow> string set" where
  "tokensOf done a = set (map (\<lambda>(t, holders). TokenInfo.address t) (filter (holds a) done))"

definition usd :: "TokenHolder \<Rightarrow> number" where
  "usd h = (case TokenHolder.valueUsd h of None \<Rightarrow> 0 | Some v \<Rightarrow> v)"

definition valueHeld :: "(TokenInfo \<times> TokenHolder list) list \<Rightarrow> string \<Rightarrow> number" where
  "valueHeld done a =
     foldl (\<lambda>total (t, holders).
              foldl (\<lambda>v h. double (v + usd h)) total
                (filter (\<lambda>h. TokenHolder.address h = a) holders))
       0 done"

text \<open>The invariant of the loop over the tokens, over the entries fetched so far.\<close>

definition summaryOk ::
  "(TokenInfo \<times> TokenHolder list) list \<Rightarrow> string \<Rightarrow> HolderSummary \<Rightarrow> bool" where
  "summaryOk done a s \<longleftrightarrow>
     HolderSummary.address s = a \<and> tokenCount s = tokensHeld done a \<and> 0 < tokensHeld done a \<and>
     totalValueUsd s = valueHeld done a \<and> fst ` set (holdings s) = tokensOf done a \<and>
     distinct (map fst (holdings s))"

definition summariesInv ::
  "(TokenInfo \<times> TokenHolder list) list \<Rightarrow> (string \<times> HolderSummary) list \<Rightarrow> bool" where
  "summariesInv done holderCounts \<longleftrightarrow>
     distinct (map fst holderCounts) \<and>
     (\<forall>a. (map_of holderCounts a = None \<longrightarrow> tokensHeld done a = 0) \<and>
          (\<forall>s. map_of holderCounts a = Some s \<longrightarrow> summaryOk done a s))"

text \<open>
  The same for the fetcher of the second script; and a token of one list and a token of the
  other have the same holders when they have the same address and both fetches return
  holders with the same addresses.
\<close>

definition fetchOutcome_p0 :: "string \<times> response list \<Rightarrow> TokenHolder list outcome" where
  "fetchOutcome_p0 = (\<lambda>(mintAddress, rs). snd (getTokenHolders_p0 mintAddress rs))"

definition holdersFetched_p0 :: "string \<times> response list \<Rightarrow> TokenHolder list" where
  "holdersFetched_p0 y = (case fetchOutcome_p0 y of Some (Inr holders) \<Rightarrow> holders | _ \<Rightarrow> [])"

definition sameHolders :: "TokenInfo \<times> response list \<Rightarrow> string \<times> response list \<Rightarrow> bool" where
  "sameHolders x y \<longleftrightarrow>
     TokenInfo.address (fst x) = fst y \<and>
     (\<exists>H H0. fetchOutcome x = Some (Inr H) \<and> fetchOutcome_p0 y = Some (Inr H0) \<and>
        TokenHolder.address ` set H = TokenHolder.address ` set H0)"

text \<open>
  Dispatch times, the latest first, are spaced by a gap when each is at least the gap after
  every earlier one. The timers to come are early by at most a number of milliseconds when
  no skew is below minus that number. The invariant of the dispatch loop between two
  tasks, for timers early by at most \<open>early\<close>: the dispatches are spaced by the minimum
  delay less \<open>early\<close> and the clock is as much past them; the counter is at most the
  ceiling and counts dispatches made; the dispatch before the counted ones is a second less
  \<open>early\<close>, or more, before the first counted one; and the dispatch eight places before
  any dispatch is more than a second before it. The loop is idle when the queue is empty
  and \<^verbatim>\<open>processing\<close> is false; the total is the number of tasks called or still to be
  called.
\<close>

definition spaced :: "nat \<Rightarrow> nat list \<Rightarrow> bool" where
  "spaced gap ts = sorted_wrt (\<lambda>later earlier. earlier + gap \<le> later) ts"

definition earlyBy :: "nat \<Rightarrow> int list \<Rightarrow> bool" where
  "earlyBy early skews = list_all (\<lambda>s. - int early \<le> s) skews"

definition idle :: "world \<Rightarrow> bool" where
  "idle w \<longleftrightarrow> queue (limiter w) = [] \<and> \<not> processing (limiter w)"

definition total :: "world \<Rightarrow> nat" where
  "total w = length (dispatched w) + waiting w"

definition paced :: "nat \<Rightarrow> world \<Rightarrow> bool" where
  "paced early w \<longleftrightarrow>
     earlyBy early (skew w) \<and>
     spaced (MIN_TIME_BETWEEN_REQUESTS - early) (dispatched w) \<and>
     (\<forall>t \<in> set (dispatched w). t + (MIN_TIME_BETWEEN_REQUESTS - early) \<le> clock w) \<and>
     (dispatched w \<noteq> [] \<longrightarrow>
        lastRequestTime (limiter w) = hd (dispatched w) \<and>
        1 \<le> requestsInLastSecond (limiter w)) \<and>
     requestsInLastSecond (limiter w) \<le> length (dispatched w) \<and>
     requestsInLastSecond (limiter w) \<le> MAX_REQUESTS_PER_SECOND \<and>
     (requestsInLastSecond (limiter w) < length (dispatched w) \<longrightarrow>
        dispatched w ! requestsInLastSecond (limiter w) + (1000 - early)
          \<le> dispatched w ! (requestsInLastSecond (limiter w) - 1)) \<and>
     (\<forall>i. i + MAX_REQUESTS_PER_SECOND < length (dispatched w) \<longrightarrow>
        dispatched w ! (i + MAX_REQUESTS_PER_SECOND) + 1000 < dispatched w ! i)"
section \<open>Example inputs\<close>

definition exAccount :: "string \<Rightarrow> number \<Rightarrow> TokenAccount" where
  "exAccount a n =
     \<lparr>TokenAccount.address = ''acc'', mint = ''M'', owner = a, TokenAccount.amount = n\<rparr>"

definition exPage :: "TokenAccount list \<Rightarrow> response" where
  "exPage accounts = \<lparr>status = 200, statusText = ''OK'', result = Some accounts\<rparr>"

definition exFailure :: "nat \<Rightarrow> response" where
  "exFailure code = \<lparr>status = code, statusText = ''failed'', result = None\<rparr>"

definition exToken :: "string \<Rightarrow> number \<Rightarrow> TokenInfo" where
  "exToken a p = \<lparr>TokenInfo.address = a, priceUsd = p\<rparr>"

definition exHolder :: "string \<Rightarrow> number \<Rightarrow> number option \<Rightarrow> TokenHolder" where
  "exHolder a n v = \<lparr>TokenHolder.address = a, TokenHolder.amount = n, TokenHolder.valueUsd = v\<rparr>"

definition exTokens :: "(TokenInfo \<times> response list) list" where
  "exTokens =
     [(exToken ''A'' 2, [exPage [exAccount ''x'' 3, exAccount ''y'' 1], exPage []]),
      (exToken ''B'' 1, [exPage [exAccount ''x'' 4], exPage []])]"

definition exAddresses :: "(string \<times> response list) list" where
  "exAddresses =
     [(''A'', [exPage [exAccount ''x'' 3, exAccount ''y'' 1], exPage []]),
      (''B'', [exPage [exAccount ''x'' 4], exPage []])]"

definition exRepeated :: "(TokenInfo \<times> response list) list" where
  "exRepeated =
     [(exToken ''A'' 1, [exPage [exAccount ''x'' 3], exPage []]),
      (exToken ''A'' 1, [exPage [exAccount ''x'' 3], exPage []])]"

text \<open>A task submitted at time 0 that settles within the millisecond.\<close>

definition exJob :: job where
  "exJob = \<lparr>submitted = 0, duration = 0\<rparr>"

section \<open>Doubles\<close>

text \<open>
  Rounding keeps the whole numbers up to \<open>2 ^ 53\<close>, keeps the sign, and takes no number from
  the smallest positive double \<open>2 ^ - 1074\<close> upwards below it. The whole number
  \<open>2 ^ 53 + 1\<close> is half way between two doubles and rounds to \<open>2 ^ 53\<close>.
\<close>

lemma roundHalfEven_of_int [simp]: "roundHalfEven (of_int n) = n"
  by (simp add: roundHalfEven_def)

lemma roundHalfEven_ge: "of_int k \<le> x \<Longrightarrow> k \<le> roundHalfEven x"
proof -
  assume "of_int k \<le> x"
  then have "k \<le> \<lfloor>x\<rfloor>" by (simp add: le_floor_iff)
  then show ?thesis by (simp add: roundHalfEven_def Let_def)
qed

lemma quantum_pos: "0 < quantum x"
  by (simp add: quantum_def)

lemma quantum_ge: "2 powr (- 1074) \<le> quantum x"
  unfolding quantum_def by (rule powr_mono) auto

lemma double_0 [simp]: "double 0 = 0"
  by (simp add: double_def)

lemma double_nonneg: "0 \<le> x \<Longrightarrow> 0 \<le> double x"
  using roundHalfEven_ge [of 0 "x / quantum x"] quantum_pos [of x]
  by (simp add: double_def)

lemma quantum_le: 
  assumes "x \<noteq> 0" "2 powr (- 1074) \<le> \<bar>x\<bar>" shows "quantum x \<le> \<bar>x\<bar>"
proof (cases "\<lfloor>log 2 \<bar>x\<bar>\<rfloor> \<le> - 1022")
  case True
  then have "quantum x = 2 powr (- 1074)" by (simp add: quantum_def max_def)
  then show ?thesis using assms by simp
next
  case False
  then have "quantum x = 2 powr (of_int \<lfloor>log 2 \<bar>x\<bar>\<rfloor> - 52)" by (simp add: quantum_def max_def)
  also have "\<dots> \<le> 2 powr (of_int \<lfloor>log 2 \<bar>x\<bar>\<rfloor>)" by (rule powr_mono) auto
  also have "\<dots> \<le> 2 powr (log 2 \<bar>x\<bar>)" by (rule powr_mono) auto
  also have "\<dots> = \<bar>x\<bar>" using assms by simp
  finally show ?thesis .
qed

lemma double_ge_tiny:
  assumes "2 powr (- 1074) \<le> x" shows "2 powr (- 1074) \<le> double x"
proof -
  have "(0::real) < 2 powr (- 1074)" by simp
  with assms have pos: "0 < x" by linarith
  have "quantum x \<le> x" using quantum_le [of x] pos assms by simp
  then have "1 \<le> x / quantum x" using quantum_pos [of x] by (simp add: le_divide_eq)
  then have "1 \<le> roundHalfEven (x / quantum x)" using roundHalfEven_ge [of 1 "x / quantum x"] by simp
  then have "(1::real) \<le> of_int (roundHalfEven (x / quantum x))" by simp
  then have "quantum x * 1 \<le> quantum x * of_int (roundHalfEven (x / quantum x))"
    using quantum_pos [of x] by (intro mult_left_mono) auto
  then show ?thesis using quantum_ge [of x] pos by (simp add: double_def)
qed

lemma double_fixed_ge_tiny:
  assumes "double a = a" "0 < a" shows "2 powr (- 1074) \<le> a"
proof -
  have a: "a = quantum a * of_int (roundHalfEven (a / quantum a))"
    using assms by (simp add: double_def)
  have "0 < roundHalfEven (a / quantum a)"
  proof (rule ccontr)
    assume "\<not> 0 < roundHalfEven (a / quantum a)"
    then have "real_of_int (roundHalfEven (a / quantum a)) \<le> 0" by simp
    with quantum_pos [of a]
    have "quantum a * real_of_int (roundHalfEven (a / quantum a)) \<le> 0"
      by (intro mult_nonneg_nonpos) simp_all
    with a assms(2) show False by simp
  qed
  then have "(1::real) \<le> of_int (roundHalfEven (a / quantum a))" by simp
  then have "quantum a * 1 \<le> quantum a * of_int (roundHalfEven (a / quantum a))"
    using quantum_pos [of a] by (intro mult_left_mono) auto
  then show ?thesis using quantum_ge [of a] a by simp
qed

lemma double_of_int:
  assumes "\<bar>n\<bar> \<le> 2 ^ 53" shows "double (of_int n) = of_int n"
proof (cases "n = 0")
  case True then show ?thesis by simp
next
  case False
  define x :: real where "x = of_int n"
  define e where "e = \<lfloor>log 2 \<bar>x\<bar>\<rfloor>"
  have ax: "\<bar>x\<bar> = of_int \<bar>n\<bar>" by (simp add: x_def)
  have "1 \<le> \<bar>n\<bar>" using False by simp
  then have x1: "1 \<le> \<bar>x\<bar>" unfolding ax by (simp only: of_int_1_le_iff)
  have "(of_int \<bar>n\<bar> :: real) \<le> of_int (2 ^ 53)" using assms by (simp only: of_int_le_iff)
  then have x2: "\<bar>x\<bar> \<le> 2 ^ 53" unfolding ax by simp
  have e0: "0 \<le> e" unfolding e_def using x1 by (simp add: zero_le_log_cancel_iff)
  have "\<bar>x\<bar> \<le> 2 powr 53" using x2 by simp
  then have "log 2 \<bar>x\<bar> \<le> 53" using x1 by (subst log_le_iff) auto
  then have e53: "e \<le> 53" unfolding e_def by (simp add: floor_le_iff)
  have q: "quantum x = 2 powr (of_int (e - 52))" using e0 by (simp add: quantum_def e_def max_def)
  have lo: "2 powr (of_int e) \<le> \<bar>x\<bar>"
  proof -
    have "2 powr (of_int e) \<le> 2 powr (log 2 \<bar>x\<bar>)" unfolding e_def by (rule powr_mono) auto
    then show ?thesis using x1 by simp
  qed
  have "\<exists>m. x = quantum x * of_int m"
  proof (cases "e = 53")
    case True
    then have "2 ^ 53 \<le> \<bar>x\<bar>" using lo by (simp add: powr_int)
    with x2 have "\<bar>x\<bar> = 2 ^ 53" by simp
    then have "x = 2 * of_int (2 ^ 52) \<or> x = 2 * of_int (- (2 ^ 52))" by auto
    moreover have "quantum x = 2" using q True by simp
    ultimately show ?thesis by metis
  next
    case False
    with e53 have "e \<le> 52" by simp
    then have "quantum x = 1 / 2 ^ nat (52 - e)"
      unfolding q using powr_int [of 2 "e - 52"] by (cases "e = 52") simp_all
    then have "x = quantum x * of_int (n * 2 ^ nat (52 - e))" by (simp add: x_def)
    then show ?thesis by blast
  qed
  then obtain m where m: "x = quantum x * of_int m" by blast
  then have "x / quantum x = of_int m"
    using quantum_pos [of x] by (simp only: eq_divide_eq divide_eq_eq) (simp add: mult.commute)
  then have "double x = quantum x * of_int m" using False by (simp add: double_def x_def)
  then show ?thesis using m by (simp add: x_def)
qed

lemma double_numeral [simp]:
  "numeral k \<le> (9007199254740992::int) \<Longrightarrow> double (numeral k) = numeral k"
  using double_of_int [of "numeral k"] by simp

lemma double_1 [simp]: "double 1 = 1"
  using double_of_int [of 1] by simp

lemma double_tie: "double 9007199254740993 = 9007199254740992"
proof -
  have "\<lfloor>log 2 (9007199254740993::real)\<rfloor> = 53"
    by (subst floor_log_eq_powr_iff) (simp_all add: powr_int)
  then have q: "quantum 9007199254740993 = 2" by (simp add: quantum_def)
  show ?thesis by (simp add: double_def q roundHalfEven_def Let_def)
qed

text \<open>
  The decimal fractions 0.1 and 0.2 round to the doubles every IEEE implementation gives
  them, and the sum of these two doubles rounds, at a tie, to the double printed as
  0.30000000000000004.
\<close>

lemma quantum_tenth: "quantum (1 / 10) = 1 / 2 ^ 56"
proof -
  have "\<lfloor>log 2 (1 / 10 :: real)\<rfloor> = - 4"
    by (subst floor_log_eq_powr_iff) (simp_all add: powr_minus_divide)
  then show ?thesis using powr_int [of 2 "- 56"] by (simp add: quantum_def)
qed

lemma double_tenth: "double (1 / 10) = 3602879701896397 / 36028797018963968"
  by (simp add: double_def quantum_tenth roundHalfEven_def Let_def)

lemma quantum_fifth: "quantum (1 / 5) = 1 / 2 ^ 55"
proof -
  have "\<lfloor>log 2 (1 / 5 :: real)\<rfloor> = - 3"
    by (subst floor_log_eq_powr_iff) (simp_all add: powr_minus_divide)
  then show ?thesis using powr_int [of 2 "- 55"] by (simp add: quantum_def)
qed

lemma double_fifth: "double (1 / 5) = 3602879701896397 / 18014398509481984"
  by (simp add: double_def quantum_fifth roundHalfEven_def Let_def)

lemma quantum_sum: "quantum (10808639105689191 / 36028797018963968) = 1 / 2 ^ 54"
proof -
  have "\<lfloor>log 2 (10808639105689191 / 36028797018963968 :: real)\<rfloor> = - 2"
    by (subst floor_log_eq_powr_iff) (simp_all add: powr_minus_divide)
  then show ?thesis using powr_int [of 2 "- 54"] by (simp add: quantum_def)
qed

lemma double_tenth_plus_fifth:
  "double (double (1 / 10) + double (1 / 5)) = 1351079888211149 / 4503599627370496"
  by (simp add: double_tenth double_fifth)
     (simp add: double_def quantum_sum roundHalfEven_def Let_def)

section \<open>Sorting keeps the elements and orders them\<close>

lemma mset_insort_cmp: "mset (insort_cmp cmp x xs) = add_mset x (mset xs)"
  by (induction xs) auto

lemma mset_array_sort: "mset (array_sort cmp xs) = mset xs"
  unfolding array_sort_def by (induction xs) (auto simp: mset_insort_cmp)

lemma set_array_sort: "set (array_sort cmp xs) = set xs"
  using mset_array_sort [of cmp xs] by (metis set_mset_mset)

lemma set_insort_cmp: "set (insort_cmp cmp x xs) = insert x (set xs)"
  using mset_insort_cmp [of cmp x xs] by (metis set_mset_mset set_mset_add_mset_insert)

lemma sorted_insort_cmp:
  "sorted_wrt (\<lambda>a b. f b \<le> f a) xs \<Longrightarrow>
   sorted_wrt (\<lambda>a b. f b \<le> f a) (insort_cmp (\<lambda>a b. f b - f a) x xs)"
  by (induction xs) (auto simp: set_insort_cmp)

lemma sorted_array_sort:
  "sorted_wrt (\<lambda>a b. (f b :: number) \<le> f a) (array_sort (\<lambda>a b. f b - f a) xs)"
  unfolding array_sort_def by (induction xs) (auto simp: sorted_insort_cmp)

lemma distinct_map_array_sort:
  "distinct (map f (array_sort cmp xs)) = distinct (map f xs)"
proof -
  have "mset (map f (array_sort cmp xs)) = mset (map f xs)"
    by (simp add: mset_array_sort)
  then show ?thesis by (rule mset_eq_imp_distinct_iff)
qed

section \<open>The fetch loops\<close>

lemma recordsOf_absent: "a \<notin> TokenAccount.owner ` set recs \<Longrightarrow> recordsOf recs a = []"
  unfolding recordsOf_def by (induction recs) auto

lemma recordsOf_empty_iff: "recordsOf recs a = [] \<longleftrightarrow> a \<notin> TokenAccount.owner ` set recs"
  unfolding recordsOf_def by (auto simp: filter_empty_conv)

lemma set_recordsOf:
  "set (recordsOf recs a) = {x \<in> set recs. TokenAccount.owner x = a}"
  unfolding recordsOf_def by simp

lemma balanceOf_absent: "a \<notin> TokenAccount.owner ` set recs \<Longrightarrow> balanceOf recs a = 0"
  unfolding balanceOf_def by (simp add: recordsOf_absent)

lemma balanceOf_snoc:
  "balanceOf (recs @ [x]) a =
     (if TokenAccount.owner x = a then double (balanceOf recs a + TokenAccount.amount x)
      else balanceOf recs a)"
  unfolding balanceOf_def recordsOf_def by simp

lemma holdersInv_addAccount:
  assumes "holdersInv price recs holders"
  shows "holdersInv price (recs @ [x]) (addAccount price holders x)"
  using assms
  unfolding holdersInv_def addAccount_def Let_def
  by (auto simp: distinct_update update_conv' holderFor_def balanceOf_snoc balanceOf_absent)

lemma holdersInv_foldl:
  "holdersInv price recs holders \<Longrightarrow>
   holdersInv price (recs @ xs) (foldl (addAccount price) holders xs)"
proof (induction xs arbitrary: recs holders)
  case Nil
  then show ?case by simp
next
  case (Cons x xs)
  from Cons.IH [OF holdersInv_addAccount [OF Cons.prems, of x]]
  show ?case by simp
qed

lemma recordsRead_Nil: "recordsRead [] = []"
  by (simp add: recordsRead_def)

lemma recordsRead_Cons:
  "recordsRead (r # rs) =
     (if ok r then (if dataPage r then accountsOf r @ recordsRead rs else []) else recordsRead rs)"
  by (simp add: recordsRead_def)

lemma fetchPages_holdersInv:
  "holdersInv price recs holders \<Longrightarrow>
   snd (fetchPages m price page holders rs) = Some (Inr holders') \<Longrightarrow>
   holdersInv price (recs @ recordsRead rs) holders'"
proof (induction rs arbitrary: recs holders page)
  case Nil
  then show ?case by simp
next
  case (Cons r rs)
  show ?case
  proof (cases "ok r")
    case False
    with Cons.prems(2) have "snd (fetchPages m price page holders rs) = Some (Inr holders')"
      by (simp split: if_splits prod.splits)
    from Cons.IH [OF Cons.prems(1) this] False show ?thesis
      by (simp add: recordsRead_Cons)
  next
    case True
    show ?thesis
    proof (cases "dataPage r")
      case False
      with True Cons.prems(2) have "holders' = holders"
        by (auto simp: dataPage_def split: option.splits if_splits)
      with Cons.prems(1) True False show ?thesis
        by (simp add: recordsRead_Cons)
    next
      case dp: True
      then obtain accs where accs: "result r = Some accs" "accs \<noteq> []"
        by (auto simp: dataPage_def)
      with True Cons.prems(2)
      have run: "snd (fetchPages m price (page + 1) (foldl (addAccount price) holders accs) rs)
                   = Some (Inr holders')"
        by (simp split: prod.splits)
      from Cons.IH [OF holdersInv_foldl [OF Cons.prems(1)] run]
      show ?thesis using True dp accs
        by (simp add: recordsRead_Cons accountsOf_def)
    qed
  qed
qed

lemma holdersInv_empty: "holdersInv price [] []"
  by (simp add: holdersInv_def)

lemma getTokenHolders_Inr:
  "snd (getTokenHolders m price rs) = Some (Inr H) \<Longrightarrow>
   \<exists>holders. snd (fetchPages m price 1 [] rs) = Some (Inr holders) \<and>
     H = array_sort (\<lambda>a b. TokenHolder.amount b - TokenHolder.amount a) (map snd holders)"
  by (auto simp: getTokenHolders_def split: prod.splits option.splits sum.splits)

lemma holdersInv_values:
  assumes "holdersInv price recs holders"
  shows "distinct (map TokenHolder.address (map snd holders))"
    and "set (map snd holders) = holderFor price recs ` TokenAccount.owner ` set recs"
proof -
  have d: "distinct (map fst holders)"
    and m: "\<And>a. map_of holders a =
        (if a \<in> TokenAccount.owner ` set recs then Some (holderFor price recs a) else None)"
    using assms by (auto simp: holdersInv_def)
  have kv: "h = holderFor price recs k \<and> k \<in> TokenAccount.owner ` set recs"
    if "(k, h) \<in> set holders" for k h
  proof -
    from that d have "map_of holders k = Some h" by simp
    with m [of k] show ?thesis by (auto split: if_splits)
  qed
  have "TokenHolder.address h = k" if "(k, h) \<in> set holders" for k h
    using kv [OF that] by (simp add: holderFor_def)
  then have eq: "map (TokenHolder.address \<circ> snd) holders = map fst holders"
    by (intro map_cong [OF refl]) auto
  show "distinct (map TokenHolder.address (map snd holders))"
    using d by (simp only: map_map eq)
  show "set (map snd holders) = holderFor price recs ` TokenAccount.owner ` set recs"
  proof (intro set_eqI iffI)
    fix h assume "h \<in> set (map snd holders)"
    then obtain k where "(k, h) \<in> set holders" by auto
    from kv [OF this] show "h \<in> holderFor price recs ` TokenAccount.owner ` set recs" by blast
  next
    fix h assume "h \<in> holderFor price recs ` TokenAccount.owner ` set recs"
    then obtain a where a: "a \<in> TokenAccount.owner ` set recs" "h = holderFor price recs a"
      by blast
    with m [of a] have "map_of holders a = Some h" by simp
    then have "(a, h) \<in> set holders" by (rule map_of_SomeD)
    then show "h \<in> set (map snd holders)" by force
  qed
qed

lemma getTokenHolders_result:
  assumes "snd (getTokenHolders m price rs) = Some (Inr H)"
  shows "distinct (map TokenHolder.address H)"
    and "set H = holderFor price (recordsRead rs) ` TokenAccount.owner ` set (recordsRead rs)"
proof -
  from getTokenHolders_Inr [OF assms] obtain holders where
    run: "snd (fetchPages m price 1 [] rs) = Some (Inr holders)" and
    H: "H = array_sort (\<lambda>a b. TokenHolder.amount b - TokenHolder.amount a) (map snd holders)"
    by blast
  from fetchPages_holdersInv [OF holdersInv_empty run]
  have inv: "holdersInv price (recordsRead rs) holders" by simp
  from holdersInv_values [OF inv] H
  show "distinct (map TokenHolder.address H)"
    and "set H = holderFor price (recordsRead rs) ` TokenAccount.owner ` set (recordsRead rs)"
    by (simp_all add: distinct_map_array_sort set_array_sort)
qed

lemma holdersInv_p0_addAccount:
  assumes "holdersInv_p0 recs holders"
  shows "holdersInv_p0 (recs @ [x]) (addAccount_p0 holders x)"
  using assms
  unfolding holdersInv_p0_def addAccount_p0_def Let_def
  by (auto simp: distinct_update update_conv' balanceOf_snoc balanceOf_absent)

lemma holdersInv_p0_foldl:
  "holdersInv_p0 recs holders \<Longrightarrow>
   holdersInv_p0 (recs @ xs) (foldl addAccount_p0 holders xs)"
proof (induction xs arbitrary: recs holders)
  case Nil
  then show ?case by simp
next
  case (Cons x xs)
  from Cons.IH [OF holdersInv_p0_addAccount [OF Cons.prems, of x]]
  show ?case by simp
qed

lemma fetchPages_p0_holdersInv:
  "holdersInv_p0 recs holders \<Longrightarrow>
   snd (fetchPages_p0 m page holders rs) = Some (Inr holders') \<Longrightarrow>
   holdersInv_p0 (recs @ recordsRead rs) holders'"
proof (induction rs arbitrary: recs holders page)
  case Nil
  then show ?case by simp
next
  case (Cons r rs)
  from Cons.prems(2) have okr: "ok r"
    by (auto split: if_splits)
  show ?case
  proof (cases "dataPage r")
    case False
    with okr Cons.prems(2) have "holders' = holders"
      by (auto simp: dataPage_def split: option.splits if_splits)
    with Cons.prems(1) okr False show ?thesis
      by (simp add: recordsRead_Cons)
  next
    case dp: True
    then obtain accs where accs: "result r = Some accs" "accs \<noteq> []"
      by (auto simp: dataPage_def)
    with okr Cons.prems(2)
    have run: "snd (fetchPages_p0 m (page + 1) (foldl addAccount_p0 holders accs) rs)
                 = Some (Inr holders')"
      by (simp split: prod.splits)
    from Cons.IH [OF holdersInv_p0_foldl [OF Cons.prems(1)] run]
    show ?thesis using okr dp accs
      by (simp add: recordsRead_Cons accountsOf_def)
  qed
qed

lemma getTokenHolders_p0_Inr:
  "snd (getTokenHolders_p0 m rs) = Some (Inr H) \<Longrightarrow>
   \<exists>holders. snd (fetchPages_p0 m 1 [] rs) = Some (Inr holders) \<and>
     H = array_sort (\<lambda>a b. TokenHolder.amount b - TokenHolder.amount a)
           (map (\<lambda>(addr, amt). \<lparr>TokenHolder.address = addr, TokenHolder.amount = amt,
                                 TokenHolder.valueUsd = None\<rparr>) holders)"
  by (auto simp: getTokenHolders_p0_def split: prod.splits option.splits sum.splits)

lemma holdersInv_p0_values:
  assumes "holdersInv_p0 recs holders"
  defines "mk \<equiv> (\<lambda>(addr, amt). \<lparr>TokenHolder.address = addr, TokenHolder.amount = amt,
                                 TokenHolder.valueUsd = None\<rparr>)"
  shows "distinct (map TokenHolder.address (map mk holders))"
    and "set (map mk holders) = holderFor_p0 recs ` TokenAccount.owner ` set recs"
proof -
  have d: "distinct (map fst holders)"
    and m: "\<And>a. map_of holders a =
        (if a \<in> TokenAccount.owner ` set recs then Some (balanceOf recs a) else None)"
    using assms(1) by (auto simp: holdersInv_p0_def)
  have kv: "mk (k, v) = holderFor_p0 recs k \<and> k \<in> TokenAccount.owner ` set recs"
    if "(k, v) \<in> set holders" for k v
  proof -
    from that d have "map_of holders k = Some v" by simp
    with m [of k] show ?thesis by (auto simp: mk_def holderFor_p0_def split: if_splits)
  qed
  have "TokenHolder.address (mk kv) = fst kv" for kv
    by (cases kv) (simp add: mk_def)
  then have eq: "map (TokenHolder.address \<circ> mk) holders = map fst holders"
    by (intro map_cong [OF refl]) auto
  show "distinct (map TokenHolder.address (map mk holders))"
    using d by (simp only: map_map eq)
  show "set (map mk holders) = holderFor_p0 recs ` TokenAccount.owner ` set recs"
  proof (intro set_eqI iffI)
    fix h assume "h \<in> set (map mk holders)"
    then obtain k v where "(k, v) \<in> set holders" "h = mk (k, v)" by auto
    with kv [of k v] show "h \<in> holderFor_p0 recs ` TokenAccount.owner ` set recs" by auto
  next
    fix h assume "h \<in> holderFor_p0 recs ` TokenAccount.owner ` set recs"
    then obtain a where a: "a \<in> TokenAccount.owner ` set recs" "h = holderFor_p0 recs a"
      by blast
    with m [of a] have "map_of holders a = Some (balanceOf recs a)" by simp
    then have "(a, balanceOf recs a) \<in> set holders" by (rule map_of_SomeD)
    with kv [OF this] a(2) show "h \<in> set (map mk holders)" by force
  qed
qed

lemma getTokenHolders_p0_result:
  assumes "snd (getTokenHolders_p0 m rs) = Some (Inr H)"
  shows "distinct (map TokenHolder.address H)"
    and "set H = holderFor_p0 (recordsRead rs) ` TokenAccount.owner ` set (recordsRead rs)"
proof -
  from getTokenHolders_p0_Inr [OF assms] obtain holders where
    run: "snd (fetchPages_p0 m 1 [] rs) = Some (Inr holders)" and
    H: "H = array_sort (\<lambda>a b. TokenHolder.amount b - TokenHolder.amount a)
           (map (\<lambda>(addr, amt). \<lparr>TokenHolder.address = addr, TokenHolder.amount = amt,
                                 TokenHolder.valueUsd = None\<rparr>) holders)"
    by blast
  have "holdersInv_p0 [] []" by (simp add: holdersInv_p0_def)
  from fetchPages_p0_holdersInv [OF this run]
  have inv: "holdersInv_p0 (recordsRead rs) holders" by simp
  from holdersInv_p0_values [OF inv] H
  show "distinct (map TokenHolder.address H)"
    and "set H = holderFor_p0 (recordsRead rs) ` TokenAccount.owner ` set (recordsRead rs)"
    by (simp_all add: distinct_map_array_sort set_array_sort)
qed

lemma pagesRequested_simps:
  "pagesRequested [] = []"
  "pagesRequested (Fetch m p # tr) = p # pagesRequested tr"
  "pagesRequested (Wait ms # tr) = pagesRequested tr"
  by (simp_all add: pagesRequested_def)

lemma rateLimited_not_ok: "rateLimited r \<Longrightarrow> \<not> ok r"
  by (simp add: rateLimited_def ok_def)

lemma rateLimited_not_dataPage: "rateLimited r \<Longrightarrow> \<not> dataPage r"
  by (simp add: rateLimited_def dataPage_def ok_def)

lemma map_upt_Suc_shift: "map f [0..<Suc n] = f 0 # map (\<lambda>i. f (Suc i)) [0..<n]"
  by (simp only: map_upt_Suc)

lemma fetchPages_to_end:
  assumes "endOfData e" and "\<forall>r \<in> set pre. rateLimited r \<or> dataPage r"
  shows "\<exists>tr holders'. fetchPages m price page holders (pre @ e # post) = (tr, Some (Inr holders')) \<and>
           pagesRequested tr =
             map (\<lambda>i. page + length (filter dataPage (take i pre))) [0..<Suc (length pre)]"
  using assms(2)
proof (induction pre arbitrary: page holders)
  case Nil
  from assms(1) show ?case
    by (auto simp: endOfData_def pagesRequested_simps split: option.splits)
next
  case (Cons r pre)
  from Cons.prems have rest: "\<forall>r \<in> set pre. rateLimited r \<or> dataPage r" by simp
  from Cons.prems consider (limited) "rateLimited r" | (data) "dataPage r" by auto
  then show ?case
  proof cases
    case limited
    from Cons.IH [OF rest, of page holders] obtain tr holders' where
      run: "fetchPages m price page holders (pre @ e # post) = (tr, Some (Inr holders'))" and
      pages: "pagesRequested tr =
                map (\<lambda>i. page + length (filter dataPage (take i pre))) [0..<Suc (length pre)]"
      by blast
    have "fetchPages m price page holders ((r # pre) @ e # post)
            = (Fetch m page # Wait 1000 # tr, Some (Inr holders'))"
      using limited run rateLimited_not_ok [OF limited] by (simp add: rateLimited_def)
    moreover have "pagesRequested (Fetch m page # Wait 1000 # tr) =
        map (\<lambda>i. page + length (filter dataPage (take i (r # pre)))) [0..<Suc (length (r # pre))]"
      using rateLimited_not_dataPage [OF limited] pages
      by (subst map_upt_Suc_shift) (simp add: pagesRequested_simps)
    ultimately show ?thesis by blast
  next
    case data
    then obtain accs where accs: "ok r" "result r = Some accs" "accs \<noteq> []"
      by (auto simp: dataPage_def)
    from Cons.IH [OF rest, of "page + 1" "foldl (addAccount price) holders accs"]
    obtain tr holders' where
      run: "fetchPages m price (page + 1) (foldl (addAccount price) holders accs)
              (pre @ e # post) = (tr, Some (Inr holders'))" and
      pages: "pagesRequested tr =
                map (\<lambda>i. page + 1 + length (filter dataPage (take i pre))) [0..<Suc (length pre)]"
      by blast
    have "fetchPages m price page holders ((r # pre) @ e # post)
            = (Fetch m page # tr, Some (Inr holders'))"
      using accs run by simp
    moreover have "pagesRequested (Fetch m page # tr) =
        map (\<lambda>i. page + length (filter dataPage (take i (r # pre)))) [0..<Suc (length (r # pre))]"
      using data pages
      by (subst map_upt_Suc_shift) (simp add: pagesRequested_simps)
    ultimately show ?thesis by blast
  qed
qed

lemma fetchPages_returned_shape:
  "snd (fetchPages m price page holders rs) = Some (Inr holders') \<Longrightarrow>
   \<exists>pre e post. rs = pre @ e # post \<and> endOfData e \<and> (\<forall>r \<in> set pre. rateLimited r \<or> dataPage r)"
proof (induction rs arbitrary: page holders)
  case Nil
  then show ?case by simp
next
  case (Cons r rs)
  show ?case
  proof (cases "endOfData r")
    case True
    then have "r # rs = [] @ r # rs \<and> endOfData r \<and> (\<forall>x \<in> set []. rateLimited x \<or> dataPage x)"
      by simp
    then show ?thesis by blast
  next
    case False
    have "\<exists>page' holders''. snd (fetchPages m price page' holders'' rs) = Some (Inr holders')
            \<and> (rateLimited r \<or> dataPage r)"
    proof (cases "ok r")
      case True
      with False obtain accs where accs: "result r = Some accs" "accs \<noteq> []"
        by (cases "result r") (auto simp: endOfData_def)
      with True Cons.prems
      have "snd (fetchPages m price (page + 1) (foldl (addAccount price) holders accs) rs)
              = Some (Inr holders')"
        by (simp split: prod.splits)
      moreover have "dataPage r" using True accs by (simp add: dataPage_def)
      ultimately show ?thesis by blast
    next
      case nok: False
      with Cons.prems
      have "snd (fetchPages m price page holders rs) = Some (Inr holders') \<and> rateLimited r"
        by (simp add: rateLimited_def split: if_splits prod.splits)
      then show ?thesis by blast
    qed
    then obtain page' holders'' where
      run: "snd (fetchPages m price page' holders'' rs) = Some (Inr holders')" and
      r: "rateLimited r \<or> dataPage r"
      by blast
    from Cons.IH [OF run] obtain pre e post where
      "rs = pre @ e # post" "endOfData e" "\<forall>x \<in> set pre. rateLimited x \<or> dataPage x"
      by blast
    with r have "r # rs = (r # pre) @ e # post \<and> endOfData e \<and>
                 (\<forall>x \<in> set (r # pre). rateLimited x \<or> dataPage x)"
      by simp
    then show ?thesis by blast
  qed
qed

lemma fetchPages_p0_to_end:
  assumes "endOfData e" and "\<forall>r \<in> set pre. dataPage r"
  shows "\<exists>tr holders'. fetchPages_p0 m page holders (pre @ e # post) = (tr, Some (Inr holders')) \<and>
           pagesRequested tr = [page..<page + Suc (length pre)]"
  using assms(2)
proof (induction pre arbitrary: page holders)
  case Nil
  from assms(1) show ?case
    by (auto simp: endOfData_def pagesRequested_simps split: option.splits)
next
  case (Cons r pre)
  from Cons.prems have rest: "\<forall>r \<in> set pre. dataPage r" and data: "dataPage r" by simp_all
  from data obtain accs where accs: "ok r" "result r = Some accs" "accs \<noteq> []"
    by (auto simp: dataPage_def)
  from Cons.IH [OF rest, of "page + 1" "foldl addAccount_p0 holders accs"]
  obtain tr holders' where
    run: "fetchPages_p0 m (page + 1) (foldl addAccount_p0 holders accs)
            (pre @ e # post) = (tr, Some (Inr holders'))" and
    pages: "pagesRequested tr = [page + 1..<page + 1 + Suc (length pre)]"
    by blast
  have "fetchPages_p0 m page holders ((r # pre) @ e # post)
          = (Fetch m page # tr, Some (Inr holders'))"
    using accs run by simp
  moreover have "[page..<page + Suc (length (r # pre))]
                   = page # [page + 1..<page + 1 + Suc (length pre)]"
    by (simp add: upt_conv_Cons del: upt_Suc)
  then have "pagesRequested (Fetch m page # tr) = [page..<page + Suc (length (r # pre))]"
    using pages by (simp only: pagesRequested_simps)
  ultimately show ?case by blast
qed

lemma fetchPages_p0_returned_shape:
  "snd (fetchPages_p0 m page holders rs) = Some (Inr holders') \<Longrightarrow>
   \<exists>pre e post. rs = pre @ e # post \<and> endOfData e \<and> (\<forall>r \<in> set pre. dataPage r)"
proof (induction rs arbitrary: page holders)
  case Nil
  then show ?case by simp
next
  case (Cons r rs)
  show ?case
  proof (cases "endOfData r")
    case True
    then have "r # rs = [] @ r # rs \<and> endOfData r \<and> (\<forall>x \<in> set []. dataPage x)"
      by simp
    then show ?thesis by blast
  next
    case False
    from Cons.prems have okr: "ok r" by (auto split: if_splits)
    with False obtain accs where accs: "result r = Some accs" "accs \<noteq> []"
      by (cases "result r") (auto simp: endOfData_def)
    with okr Cons.prems
    have run: "snd (fetchPages_p0 m (page + 1) (foldl addAccount_p0 holders accs) rs)
                 = Some (Inr holders')"
      by (simp split: prod.splits)
    have r: "dataPage r" using okr accs by (simp add: dataPage_def)
    from Cons.IH [OF run] obtain pre e post where
      "rs = pre @ e # post" "endOfData e" "\<forall>x \<in> set pre. dataPage x"
      by blast
    with r have "r # rs = (r # pre) @ e # post \<and> endOfData e \<and> (\<forall>x \<in> set (r # pre). dataPage x)"
      by simp
    then show ?thesis by blast
  qed
qed

lemma getTokenHolders_fst: "fst (getTokenHolders m price rs) = fst (fetchPages m price 1 [] rs)"
  by (simp add: getTokenHolders_def split: prod.splits option.splits sum.splits)

lemma getTokenHolders_returns_iff:
  "(\<exists>H. snd (getTokenHolders m price rs) = Some (Inr H)) \<longleftrightarrow>
   (\<exists>holders. snd (fetchPages m price 1 [] rs) = Some (Inr holders))"
  by (auto simp: getTokenHolders_def split: prod.splits option.splits sum.splits)

lemma getTokenHolders_p0_fst: "fst (getTokenHolders_p0 m rs) = fst (fetchPages_p0 m 1 [] rs)"
  by (simp add: getTokenHolders_p0_def split: prod.splits option.splits sum.splits)

lemma getTokenHolders_p0_returns_iff:
  "(\<exists>H. snd (getTokenHolders_p0 m rs) = Some (Inr H)) \<longleftrightarrow>
   (\<exists>holders. snd (fetchPages_p0 m 1 [] rs) = Some (Inr holders))"
  by (auto simp: getTokenHolders_p0_def split: prod.splits option.splits sum.splits)

lemma fetchPages_starts: "\<exists>tr. fst (fetchPages m price page holders rs) = Fetch m page # tr"
  by (cases rs) (auto split: prod.splits option.splits)

lemma fetchPages_snd_Cons:
  "snd (fetchPages m price page holders (r # rs)) =
     (if \<not> ok r then
        (if status r = 429 then snd (fetchPages m price page holders rs)
         else Some (Inl (FetchError (status r) (statusText r))))
      else
        (case result r of
           None \<Rightarrow> Some (Inr holders)
         | Some token_accounts \<Rightarrow>
             (if token_accounts = [] then Some (Inr holders)
              else snd (fetchPages m price (page + 1)
                          (foldl (addAccount price) holders token_accounts) rs))))"
  by (simp split: prod.splits option.splits)

lemma fetchPages_skip_rateLimited:
  "rateLimited r \<Longrightarrow>
   snd (fetchPages m price page holders (pre @ r # post))
     = snd (fetchPages m price page holders (pre @ post))"
proof (induction pre arbitrary: page holders)
  case Nil
  then show ?case
    by (simp add: fetchPages_snd_Cons rateLimited_def ok_def del: fetchPages.simps)
next
  case (Cons x pre)
  note IH = Cons.IH [OF Cons.prems]
  show ?case
    by (simp add: fetchPages_snd_Cons IH del: fetchPages.simps split: option.splits)
qed

lemma fetchPages_never_throws_429:
  "snd (fetchPages m price page holders rs) \<noteq> Some (Inl (FetchError 429 msg))"
proof (induction rs arbitrary: page holders)
  case Nil
  then show ?case by simp
next
  case (Cons r rs)
  show ?case
    by (simp add: fetchPages_snd_Cons Cons.IH del: fetchPages.simps split: option.splits)
qed

lemma getTokenHolders_snd:
  "snd (getTokenHolders m price rs) =
     (case snd (fetchPages m price 1 [] rs) of
        None \<Rightarrow> None
      | Some (Inl e) \<Rightarrow> Some (Inl e)
      | Some (Inr holders) \<Rightarrow>
          Some (Inr (array_sort (\<lambda>a b. TokenHolder.amount b - TokenHolder.amount a)
                       (map snd holders))))"
  by (simp add: getTokenHolders_def split: prod.splits option.splits sum.splits)

lemma fetchPages_fst_Cons:
  "fst (fetchPages m price page holders (r # rs)) =
     (if \<not> ok r then
        (if status r = 429 then Fetch m page # Wait 1000 # fst (fetchPages m price page holders rs)
         else [Fetch m page])
      else
        (case result r of
           None \<Rightarrow> [Fetch m page]
         | Some token_accounts \<Rightarrow>
             (if token_accounts = [] then [Fetch m page]
              else Fetch m page # fst (fetchPages m price (page + 1)
                          (foldl (addAccount price) holders token_accounts) rs))))"
  by (simp split: prod.splits option.splits)

lemma fetchPages_fatal:
  assumes "\<not> ok r" and "\<not> rateLimited r" and "\<forall>x \<in> set pre. rateLimited x \<or> dataPage x"
  shows "snd (fetchPages m price page holders (pre @ r # post))
           = Some (Inl (FetchError (status r) (statusText r))) \<and>
         length (pagesRequested (fst (fetchPages m price page holders (pre @ r # post))))
           = length pre + 1"
  using assms(3)
proof (induction pre arbitrary: page holders)
  case Nil
  from assms(1,2) show ?case
    by (simp add: fetchPages_snd_Cons fetchPages_fst_Cons rateLimited_def pagesRequested_simps
          del: fetchPages.simps)
next
  case (Cons x pre)
  from Cons.prems have rest: "\<forall>x \<in> set pre. rateLimited x \<or> dataPage x" by simp
  note IH = Cons.IH [OF rest]
  from Cons.prems consider (limited) "rateLimited x" | (data) "dataPage x" by auto
  then show ?case
  proof cases
    case limited
    then have "\<not> ok x" "status x = 429" by (simp_all add: rateLimited_def ok_def)
    then show ?thesis
      by (simp add: fetchPages_snd_Cons fetchPages_fst_Cons IH pagesRequested_simps
            del: fetchPages.simps)
  next
    case data
    then obtain accs where "ok x" "result x = Some accs" "accs \<noteq> []"
      by (auto simp: dataPage_def)
    then show ?thesis
      using IH [of "Suc page"]
      by (simp add: fetchPages_snd_Cons fetchPages_fst_Cons pagesRequested_simps
            del: fetchPages.simps)
  qed
qed

text \<open>
  The running sum of doubles over amounts that are zero is zero; over doubles that are not
  negative it is not negative, and positive once one of them is; over whole numbers that
  are not negative and whose sum is at most \<open>2 ^ 53\<close> it is their sum.
\<close>

lemma running_zero:
  "\<forall>x \<in> set xs. TokenAccount.amount x = 0 \<Longrightarrow>
   foldl (\<lambda>balance account. double (balance + TokenAccount.amount account)) 0 xs = 0"
  by (induction xs) simp_all

lemma running_nonneg:
  "\<forall>x \<in> set xs. 0 \<le> TokenAccount.amount x \<Longrightarrow> 0 \<le> s \<Longrightarrow>
   0 \<le> foldl (\<lambda>balance account. double (balance + TokenAccount.amount account)) s xs"
proof (induction xs arbitrary: s)
  case Nil
  then show ?case by simp
next
  case (Cons x xs)
  from Cons.prems have "0 \<le> double (s + TokenAccount.amount x)"
    by (intro double_nonneg) simp
  with Cons.IH [of "double (s + TokenAccount.amount x)"] Cons.prems(1) show ?case by simp
qed

lemma running_positive:
  "\<forall>x \<in> set xs. isDouble (TokenAccount.amount x) \<and> 0 \<le> TokenAccount.amount x \<Longrightarrow>
   0 \<le> s \<Longrightarrow>
   2 powr (- 1074) \<le> s \<or> (\<exists>x \<in> set xs. 0 < TokenAccount.amount x) \<Longrightarrow>
   2 powr (- 1074) \<le> foldl (\<lambda>balance account. double (balance + TokenAccount.amount account)) s xs"
proof (induction xs arbitrary: s)
  case Nil
  then show ?case by simp
next
  case (Cons x xs)
  let ?s = "double (s + TokenAccount.amount x)"
  from Cons.prems have x: "isDouble (TokenAccount.amount x)" "0 \<le> TokenAccount.amount x"
    and rest: "\<forall>y \<in> set xs. isDouble (TokenAccount.amount y) \<and> 0 \<le> TokenAccount.amount y"
    by simp_all
  from Cons.prems(2) x(2) have nonneg: "0 \<le> ?s" by (intro double_nonneg) simp
  have "2 powr (- 1074) \<le> ?s \<or> (\<exists>y \<in> set xs. 0 < TokenAccount.amount y)"
  proof (cases "2 powr (- 1074) \<le> s \<or> 0 < TokenAccount.amount x")
    case True
    then have "2 powr (- 1074) \<le> s + TokenAccount.amount x"
    proof
      assume "2 powr (- 1074) \<le> s"
      with x(2) show ?thesis by simp
    next
      assume "0 < TokenAccount.amount x"
      with x(1) have "2 powr (- 1074) \<le> TokenAccount.amount x"
        by (intro double_fixed_ge_tiny) (simp_all add: isDouble_def)
      with Cons.prems(2) show ?thesis by simp
    qed
    then show ?thesis by (simp add: double_ge_tiny)
  next
    case False
    with Cons.prems(3) show ?thesis by auto
  qed
  from Cons.IH [OF rest nonneg this] show ?case by simp
qed

lemma running_exact:
  "\<forall>x \<in> set xs. TokenAccount.amount x \<in> \<nat> \<Longrightarrow> s \<in> \<nat> \<Longrightarrow>
   s + sum_list (map TokenAccount.amount xs) \<le> 2 ^ 53 \<Longrightarrow>
   foldl (\<lambda>balance account. double (balance + TokenAccount.amount account)) s xs
     = s + sum_list (map TokenAccount.amount xs)"
proof (induction xs arbitrary: s)
  case Nil
  then show ?case by simp
next
  case (Cons x xs)
  from Cons.prems have nat: "s + TokenAccount.amount x \<in> \<nat>" by (simp add: Nats_add)
  have "0 \<le> sum_list (map TokenAccount.amount xs)"
    using Cons.prems(1) by (intro sum_list_nonneg) (auto simp: Nats_def)
  with Cons.prems(3) have le: "s + TokenAccount.amount x \<le> 2 ^ 53" by simp
  from nat obtain n :: nat where n: "s + TokenAccount.amount x = of_nat n"
    by (auto simp: Nats_def)
  with le have "real n \<le> 2 ^ 53" by simp
  then have "int n \<le> 2 ^ 53" by (metis of_int_le_iff of_int_numeral of_int_of_nat_eq of_int_power)
  then have "double (of_int (int n)) = of_int (int n)" by (intro double_of_int) simp
  with n have keep: "double (s + TokenAccount.amount x) = s + TokenAccount.amount x" by simp
  from Cons.IH [of "s + TokenAccount.amount x"] Cons.prems nat
  show ?case by (simp add: keep add.assoc)
qed

lemma balanceOf_zero:
  "\<forall>x \<in> set (recordsOf recs a). TokenAccount.amount x = 0 \<Longrightarrow> balanceOf recs a = 0"
  unfolding balanceOf_def by (rule running_zero)

lemma balanceOf_positive:
  assumes "\<forall>x \<in> set (recordsOf recs a). isDouble (TokenAccount.amount x) \<and> 0 \<le> TokenAccount.amount x"
    and "\<exists>x \<in> set (recordsOf recs a). 0 < TokenAccount.amount x"
  shows "0 < balanceOf recs a"
proof -
  have "2 powr (- 1074) \<le> balanceOf recs a"
    unfolding balanceOf_def using assms by (intro running_positive) simp_all
  moreover have "(0::real) < 2 powr (- 1074)" by simp
  ultimately show ?thesis by linarith
qed

lemma balanceOf_exact:
  assumes "\<forall>x \<in> set (recordsOf recs a). TokenAccount.amount x \<in> \<nat>"
    and "sumOfAmounts recs a \<le> 2 ^ 53"
  shows "balanceOf recs a = sumOfAmounts recs a"
  using running_exact [of "recordsOf recs a" 0] assms
  unfolding balanceOf_def sumOfAmounts_def by simp
section \<open>The loop over the tokens\<close>

lemma tokenLoop_snd_Cons:
  "snd (tokenLoop ((t, rs) # ts) details counts) =
     (case snd (getTokenHolders (TokenInfo.address t) (TokenInfo.priceUsd t) rs) of
        None \<Rightarrow> None
      | Some (Inl e) \<Rightarrow> Some (Inl e)
      | Some (Inr holders) \<Rightarrow>
          snd (tokenLoop ts (AList.update (TokenInfo.address t) holders details)
                 (foldl (tally t) counts holders)))"
  by (simp split: prod.splits option.splits sum.splits)

lemma tokenLoop_fst_Cons:
  "fst (tokenLoop ((t, rs) # ts) details counts) =
     (case snd (getTokenHolders (TokenInfo.address t) (TokenInfo.priceUsd t) rs) of
        None \<Rightarrow> fst (getTokenHolders (TokenInfo.address t) (TokenInfo.priceUsd t) rs)
      | Some (Inl e) \<Rightarrow> fst (getTokenHolders (TokenInfo.address t) (TokenInfo.priceUsd t) rs)
      | Some (Inr holders) \<Rightarrow>
          fst (getTokenHolders (TokenInfo.address t) (TokenInfo.priceUsd t) rs) @ Wait 100 #
          fst (tokenLoop ts (AList.update (TokenInfo.address t) holders details)
                 (foldl (tally t) counts holders)))"
  by (simp split: prod.splits option.splits sum.splits)

lemma tokenLoop_fails:
  assumes "\<forall>x \<in> set before. \<exists>H. fetchOutcome x = Some (Inr H)"
    and "fetchOutcome x = Some (Inl e)"
  shows "snd (tokenLoop (before @ x # after) details counts) = Some (Inl e) \<and>
         fst (tokenLoop (before @ x # after) details counts)
           = concat (map (\<lambda>y. fetchTrace y @ [Wait 100]) before) @ fetchTrace x"
  using assms(1)
proof (induction before arbitrary: details counts)
  case Nil
  obtain t rs where x: "x = (t, rs)" by (cases x)
  with assms(2) show ?case
    by (simp add: tokenLoop_snd_Cons tokenLoop_fst_Cons fetchOutcome_def fetchTrace_def
          del: tokenLoop.simps)
next
  case (Cons y before)
  obtain t rs where y: "y = (t, rs)" by (cases y)
  from Cons.prems obtain H where H: "fetchOutcome y = Some (Inr H)" by auto
  from Cons.prems have rest: "\<forall>x \<in> set before. \<exists>H. fetchOutcome x = Some (Inr H)" by simp
  note IH = Cons.IH [OF rest]
  from H y show ?case
    by (simp add: tokenLoop_snd_Cons tokenLoop_fst_Cons fetchOutcome_def fetchTrace_def IH
          del: tokenLoop.simps)
qed

lemma findHoldersWithMinTokens_snd:
  "snd (findHoldersWithMinTokens tokens minTokensRequired) =
     (if minTokensRequired > real (length tokens) then Some (Inl MinTokensError)
      else
        (case snd (tokenLoop tokens [] []) of
           None \<Rightarrow> None
         | Some (Inl e) \<Rightarrow> Some (Inl e)
         | Some (Inr (holderDetails, holderCounts)) \<Rightarrow>
             Some (Inr
                (array_sort (\<lambda>a b. totalValueUsd b - totalValueUsd a)
                   (filter (\<lambda>summary. real (tokenCount summary) \<ge> minTokensRequired)
                      (map snd holderCounts)),
                 holderDetails))))"
  by (simp add: findHoldersWithMinTokens_def split: prod.splits option.splits sum.splits)

lemma findHoldersWithMinTokens_fst:
  "fst (findHoldersWithMinTokens tokens minTokensRequired) =
     (if minTokensRequired > real (length tokens) then [] else fst (tokenLoop tokens [] []))"
  by (simp add: findHoldersWithMinTokens_def split: prod.splits option.splits sum.splits)

lemma tally_eq:
  "tally t counts h =
     AList.update (TokenHolder.address h)
       ((case map_of counts (TokenHolder.address h) of
           None \<Rightarrow> \<lparr>HolderSummary.address = TokenHolder.address h,
                     tokenCount = 0, holdings = [], totalValueUsd = 0\<rparr>
         | Some s \<Rightarrow> s)
          \<lparr>tokenCount := tokenCount (case map_of counts (TokenHolder.address h) of
                             None \<Rightarrow> \<lparr>HolderSummary.address = TokenHolder.address h,
                                       tokenCount = 0, holdings = [], totalValueUsd = 0\<rparr>
                           | Some s \<Rightarrow> s) + 1,
           holdings := AList.update (TokenInfo.address t) h
                         (holdings (case map_of counts (TokenHolder.address h) of
                             None \<Rightarrow> \<lparr>HolderSummary.address = TokenHolder.address h,
                                       tokenCount = 0, holdings = [], totalValueUsd = 0\<rparr>
                           | Some s \<Rightarrow> s)),
           totalValueUsd := double (totalValueUsd (case map_of counts (TokenHolder.address h) of
                             None \<Rightarrow> \<lparr>HolderSummary.address = TokenHolder.address h,
                                       tokenCount = 0, holdings = [], totalValueUsd = 0\<rparr>
                           | Some s \<Rightarrow> s) + usd h)\<rparr>)
       counts"
  by (cases "map_of counts (TokenHolder.address h)")
     (simp_all add: tally_def usd_def update_conv')

lemma tokensHeld_snoc:
  "tokensHeld (done @ [(t, H)]) a
     = tokensHeld done a + (if a \<in> TokenHolder.address ` set H then 1 else 0)"
  by (simp add: tokensHeld_def holds_def)

lemma tokensOf_snoc:
  "tokensOf (done @ [(t, H)]) a
     = tokensOf done a \<union> (if a \<in> TokenHolder.address ` set H then {TokenInfo.address t} else {})"
  by (simp add: tokensOf_def holds_def)

lemma valueHeld_snoc:
  "valueHeld (done @ [(t, H)]) a
     = foldl (\<lambda>v h. double (v + usd h)) (valueHeld done a)
         (filter (\<lambda>h. TokenHolder.address h = a) H)"
  by (simp add: valueHeld_def)

lemma tokensOf_empty: "tokensHeld done a = 0 \<Longrightarrow> tokensOf done a = {}"
  by (simp add: tokensHeld_def tokensOf_def)

lemma valueHeld_zero: "tokensHeld done a = 0 \<Longrightarrow> valueHeld done a = 0"
proof (induction "done" rule: rev_induct)
  case Nil
  then show ?case by (simp add: valueHeld_def)
next
  case (snoc x xs)
  obtain t H where x: "x = (t, H)" by (cases x)
  from snoc.prems have z: "tokensHeld xs a = 0" and none: "a \<notin> TokenHolder.address ` set H"
    unfolding x tokensHeld_snoc by (simp_all split: if_splits)
  from none have "filter (\<lambda>h. TokenHolder.address h = a) H = []"
    by (auto simp: filter_empty_conv)
  with snoc.IH [OF z] show ?case by (simp add: x valueHeld_snoc)
qed

lemma summariesInv_start:
  assumes "summariesInv done counts"
  shows "summariesInv (done @ [(t, [])]) counts"
proof -
  have "tokensHeld (done @ [(t, [])]) a = tokensHeld done a"
    "tokensOf (done @ [(t, [])]) a = tokensOf done a"
    "valueHeld (done @ [(t, [])]) a = valueHeld done a" for a
    by (simp_all add: tokensHeld_snoc tokensOf_snoc valueHeld_snoc)
  then show ?thesis
    using assms unfolding summariesInv_def summaryOk_def by simp
qed

lemma summariesInv_tally:
  assumes inv: "summariesInv (done @ [(t, pre)]) counts"
    and new: "TokenHolder.address h \<notin> TokenHolder.address ` set pre"
  shows "summariesInv (done @ [(t, pre @ [h])]) (tally t counts h)"
proof -
  let ?a = "TokenHolder.address h"
  let ?d = "done @ [(t, pre)]"
  let ?d' = "done @ [(t, pre @ [h])]"
  from inv have d: "distinct (map fst counts)"
    and mN: "\<And>a. map_of counts a = None \<Longrightarrow> tokensHeld ?d a = 0"
    and mS: "\<And>a s. map_of counts a = Some s \<Longrightarrow> summaryOk ?d a s"
    by (auto simp: summariesInv_def)
  have other: "tokensHeld ?d' b = tokensHeld ?d b" "tokensOf ?d' b = tokensOf ?d b"
    "valueHeld ?d' b = valueHeld ?d b" if "b \<noteq> ?a" for b
    using that by (auto simp: tokensHeld_snoc tokensOf_snoc valueHeld_snoc)
  have held: "tokensHeld ?d' ?a = tokensHeld done ?a + 1" "tokensHeld ?d ?a = tokensHeld done ?a"
    using new by (simp_all add: tokensHeld_snoc)
  have toks: "tokensOf ?d' ?a = insert (TokenInfo.address t) (tokensOf done ?a)"
    "tokensOf ?d ?a = tokensOf done ?a"
    using new by (simp_all add: tokensOf_snoc)
  have "filter (\<lambda>x. TokenHolder.address x = ?a) pre = []"
    using new by (induction pre) auto
  then have val: "valueHeld ?d' ?a = double (valueHeld done ?a + usd h)"
    "valueHeld ?d ?a = valueHeld done ?a"
    by (simp_all add: valueHeld_snoc)
  have same: "summaryOk ?d' ?a
      (s\<lparr>tokenCount := tokenCount s + 1,
         holdings := AList.update (TokenInfo.address t) h (holdings s),
         totalValueUsd := double (totalValueUsd s + usd h)\<rparr>)"
    if "case map_of counts ?a of None \<Rightarrow> s = \<lparr>HolderSummary.address = ?a,
                     tokenCount = 0, holdings = [], totalValueUsd = 0\<rparr> | Some s' \<Rightarrow> s = s'" for s
  proof (cases "map_of counts ?a")
    case None
    with mN [of ?a] have z: "tokensHeld done ?a = 0" by (simp add: held)
    from None that have s: "s = \<lparr>HolderSummary.address = ?a,
                     tokenCount = 0, holdings = [], totalValueUsd = 0\<rparr>" by simp
    show ?thesis
      unfolding summaryOk_def held toks val
      by (simp add: s z tokensOf_empty valueHeld_zero)
  next
    case (Some s')
    with that have s: "s = s'" by simp
    from mS [of ?a] Some s have "summaryOk ?d ?a s" by simp
    then show ?thesis
      unfolding summaryOk_def held toks val
      by (simp add: dom_update distinct_update)
  qed
  have A: "distinct (map fst (tally t counts h))"
    by (simp add: tally_eq distinct_update d)
  have B: "(map_of (tally t counts h) b = None \<longrightarrow> tokensHeld ?d' b = 0) \<and>
           (\<forall>s. map_of (tally t counts h) b = Some s \<longrightarrow> summaryOk ?d' b s)" for b
  proof (cases "b = ?a")
    case True
    then show ?thesis
      using same by (simp add: tally_eq update_conv' split: option.splits)
  next
    case False
    with mN [of b] mS [of b] show ?thesis
      by (simp add: tally_eq update_conv' other summaryOk_def)
  qed
  from A B show ?thesis
    unfolding summariesInv_def by blast
qed

lemma summariesInv_foldl_aux:
  "summariesInv (done @ [(t, pre)]) counts \<Longrightarrow>
   distinct (map TokenHolder.address (pre @ H)) \<Longrightarrow>
   summariesInv (done @ [(t, pre @ H)]) (foldl (tally t) counts H)"
proof (induction H arbitrary: pre counts)
  case Nil
  then show ?case by simp
next
  case (Cons h H)
  from Cons.prems(2) have new: "TokenHolder.address h \<notin> TokenHolder.address ` set pre"
    by auto
  from Cons.prems(2) have d: "distinct (map TokenHolder.address ((pre @ [h]) @ H))"
    by simp
  from Cons.IH [OF summariesInv_tally [OF Cons.prems(1) new] d]
  show ?case by simp
qed

lemma summariesInv_foldl:
  "summariesInv done counts \<Longrightarrow> distinct (map TokenHolder.address H) \<Longrightarrow>
   summariesInv (done @ [(t, H)]) (foldl (tally t) counts H)"
  using summariesInv_foldl_aux [of "done" t "[]" counts H] summariesInv_start [of "done" counts t]
  by simp

lemma fetchOutcome_distinct:
  "fetchOutcome x = Some (Inr H) \<Longrightarrow> distinct (map TokenHolder.address H)"
  by (cases x) (auto simp: fetchOutcome_def intro: getTokenHolders_result(1))

lemma fetched_Cons: "fetched (x # ts) = (fst x, holdersFetched x) # fetched ts"
  by (simp add: fetched_def)

lemma tokenLoop_summariesInv:
  "summariesInv done counts \<Longrightarrow>
   snd (tokenLoop ts details counts) = Some (Inr (details', counts')) \<Longrightarrow>
   summariesInv (done @ fetched ts) counts' \<and>
   (\<forall>x \<in> set ts. \<exists>H. fetchOutcome x = Some (Inr H))"
proof (induction ts arbitrary: "done" details counts)
  case Nil
  then show ?case by (simp add: fetched_def)
next
  case (Cons x ts)
  obtain t rs where x: "x = (t, rs)" by (cases x)
  from Cons.prems(2) x obtain H where
    H: "fetchOutcome x = Some (Inr H)" and
    run: "snd (tokenLoop ts (AList.update (TokenInfo.address t) H details)
                 (foldl (tally t) counts H)) = Some (Inr (details', counts'))"
    by (auto simp: tokenLoop_snd_Cons fetchOutcome_def simp del: tokenLoop.simps
          split: option.splits sum.splits)
  from H x have hf: "holdersFetched (t, rs) = H" by (simp add: holdersFetched_def)
  from summariesInv_foldl [OF Cons.prems(1) fetchOutcome_distinct [OF H], of t]
  have "summariesInv (done @ [(t, H)]) (foldl (tally t) counts H)" .
  from Cons.IH [OF this run] H show ?case
    by (simp add: fetched_Cons hf x)
qed

lemma tokenLoop_returns:
  "\<forall>x \<in> set ts. \<exists>H. fetchOutcome x = Some (Inr H) \<Longrightarrow>
   \<exists>details' counts'. snd (tokenLoop ts details counts) = Some (Inr (details', counts'))"
proof (induction ts arbitrary: details counts)
  case Nil
  then show ?case by simp
next
  case (Cons x ts)
  obtain t rs where x: "x = (t, rs)" by (cases x)
  from Cons.prems obtain H where H: "fetchOutcome x = Some (Inr H)" by auto
  from Cons.prems have "\<forall>x \<in> set ts. \<exists>H. fetchOutcome x = Some (Inr H)" by simp
  from Cons.IH [OF this] H x show ?case
    by (simp add: tokenLoop_snd_Cons fetchOutcome_def del: tokenLoop.simps)
qed

lemma summariesInv_empty: "summariesInv [] []"
  by (simp add: summariesInv_def tokensHeld_def)

lemma findHoldersWithMinTokens_returns:
  assumes "\<forall>x \<in> set tokens. \<exists>H. fetchOutcome x = Some (Inr H)"
    and "minTokensRequired \<le> real (length tokens)"
  shows "\<exists>q d. snd (findHoldersWithMinTokens tokens minTokensRequired) = Some (Inr (q, d))"
proof -
  from tokenLoop_returns [OF assms(1), of "[]" "[]"] obtain details' counts' where
    "snd (tokenLoop tokens [] []) = Some (Inr (details', counts'))" by blast
  with assms(2) show ?thesis
    by (simp add: findHoldersWithMinTokens_snd)
qed

lemma findHoldersWithMinTokens_Inr:
  assumes "snd (findHoldersWithMinTokens tokens minTokensRequired) = Some (Inr (q, d))"
  shows "\<exists>counts. summariesInv (fetched tokens) counts \<and>
           q = array_sort (\<lambda>a b. totalValueUsd b - totalValueUsd a)
                 (filter (\<lambda>summary. real (tokenCount summary) \<ge> minTokensRequired)
                    (map snd counts)) \<and>
           (\<forall>x \<in> set tokens. \<exists>H. fetchOutcome x = Some (Inr H)) \<and>
           minTokensRequired \<le> real (length tokens)"
proof -
  from assms have le: "minTokensRequired \<le> real (length tokens)"
    by (auto simp: findHoldersWithMinTokens_snd split: if_splits)
  with assms obtain details' counts' where
    run: "snd (tokenLoop tokens [] []) = Some (Inr (details', counts'))" and
    q: "q = array_sort (\<lambda>a b. totalValueUsd b - totalValueUsd a)
                 (filter (\<lambda>summary. real (tokenCount summary) \<ge> minTokensRequired)
                    (map snd counts'))"
    by (auto simp: findHoldersWithMinTokens_snd split: option.splits sum.splits)
  from tokenLoop_summariesInv [OF summariesInv_empty run] q le show ?thesis
    by auto
qed

lemma summariesInv_values:
  assumes "summariesInv done counts"
  shows "map HolderSummary.address (map snd counts) = map fst counts"
    and "\<And>s. s \<in> set (map snd counts) \<Longrightarrow> summaryOk done (HolderSummary.address s) s"
    and "\<And>a. 0 < tokensHeld done a \<Longrightarrow> \<exists>s \<in> set (map snd counts). HolderSummary.address s = a"
proof -
  from assms have d: "distinct (map fst counts)"
    and mN: "\<And>a. map_of counts a = None \<Longrightarrow> tokensHeld done a = 0"
    and mS: "\<And>a s. map_of counts a = Some s \<Longrightarrow> summaryOk done a s"
    by (auto simp: summariesInv_def)
  have kv: "summaryOk done k s" if "(k, s) \<in> set counts" for k s
    using that d mS by simp
  then have key: "HolderSummary.address s = k" if "(k, s) \<in> set counts" for k s
    using that by (simp add: summaryOk_def)
  have "map (HolderSummary.address \<circ> snd) counts = map fst counts"
    by (intro map_cong [OF refl]) (use key in auto)
  then show "map HolderSummary.address (map snd counts) = map fst counts"
    by (simp only: map_map)
  show "summaryOk done (HolderSummary.address s) s" if "s \<in> set (map snd counts)" for s
  proof -
    from that obtain k where "(k, s) \<in> set counts" by auto
    with kv [OF this] key [OF this] show ?thesis by simp
  qed
  show "\<exists>s \<in> set (map snd counts). HolderSummary.address s = a" if "0 < tokensHeld done a" for a
  proof (cases "map_of counts a")
    case None
    from mN [OF this] that show ?thesis by simp
  next
    case (Some s)
    then have "(a, s) \<in> set counts" by (rule map_of_SomeD)
    with key [OF this] show ?thesis by force
  qed
qed

lemma card_tokensOf_le: "card (tokensOf done a) \<le> tokensHeld done a"
  unfolding tokensOf_def tokensHeld_def
  by (metis card_length length_map)



lemma qualifiedHolders_facts:
  assumes "snd (findHoldersWithMinTokens tokens minTokensRequired)
             = Some (Inr (qualifiedHolders, holderDetails))"
  shows "sorted_wrt (\<lambda>a b. totalValueUsd b \<le> totalValueUsd a) qualifiedHolders"
    and "distinct (map HolderSummary.address qualifiedHolders)"
    and "\<forall>a. a \<in> HolderSummary.address ` set qualifiedHolders \<longleftrightarrow>
            0 < tokensHeld (fetched tokens) a \<and>
            minTokensRequired \<le> real (tokensHeld (fetched tokens) a)"
    and "\<forall>s \<in> set qualifiedHolders.
         tokenCount s = tokensHeld (fetched tokens) (HolderSummary.address s) \<and>
         totalValueUsd s = valueHeld (fetched tokens) (HolderSummary.address s) \<and>
         fst ` set (holdings s) = tokensOf (fetched tokens) (HolderSummary.address s)"
proof -
  from findHoldersWithMinTokens_Inr [OF assms] obtain counts where
    inv: "summariesInv (fetched tokens) counts" and
    q: "qualifiedHolders = array_sort (\<lambda>a b. totalValueUsd b - totalValueUsd a)
          (filter (\<lambda>summary. real (tokenCount summary) \<ge> minTokensRequired) (map snd counts))"
    by blast
  note v = summariesInv_values [OF inv]
  have setq: "set qualifiedHolders
                = {s \<in> set (map snd counts). minTokensRequired \<le> real (tokenCount s)}"
    by (auto simp: q set_array_sort)
  show "sorted_wrt (\<lambda>a b. totalValueUsd b \<le> totalValueUsd a) qualifiedHolders"
    unfolding q by (rule sorted_array_sort)
  from inv have "distinct (map fst counts)" by (simp add: summariesInv_def)
  then have "distinct (map HolderSummary.address (map snd counts))"
    by (simp only: v(1))
  then have "distinct (map HolderSummary.address
      (filter (\<lambda>summary. real (tokenCount summary) \<ge> minTokensRequired) (map snd counts)))"
    by (rule distinct_map_filter)
  then show "distinct (map HolderSummary.address qualifiedHolders)"
    by (simp only: q distinct_map_array_sort)
  show "\<forall>a. a \<in> HolderSummary.address ` set qualifiedHolders \<longleftrightarrow>
            0 < tokensHeld (fetched tokens) a \<and>
            minTokensRequired \<le> real (tokensHeld (fetched tokens) a)"
  proof (intro allI iffI)
    fix a assume "a \<in> HolderSummary.address ` set qualifiedHolders"
    then obtain s where s: "s \<in> set (map snd counts)" "minTokensRequired \<le> real (tokenCount s)"
      "HolderSummary.address s = a"
      unfolding setq by auto
    from v(2) [OF s(1)] s(2,3)
    show "0 < tokensHeld (fetched tokens) a \<and>
          minTokensRequired \<le> real (tokensHeld (fetched tokens) a)"
      by (simp add: summaryOk_def)
  next
    fix a assume a: "0 < tokensHeld (fetched tokens) a \<and>
          minTokensRequired \<le> real (tokensHeld (fetched tokens) a)"
    then have "0 < tokensHeld (fetched tokens) a" by simp
    from v(3) [OF this] obtain s where s: "s \<in> set (map snd counts)" "HolderSummary.address s = a"
      by auto
    from v(2) [OF s(1)] s(2) a have "minTokensRequired \<le> real (tokenCount s)"
      by (simp add: summaryOk_def)
    with s have "s \<in> set qualifiedHolders" unfolding setq by simp
    with s(2) show "a \<in> HolderSummary.address ` set qualifiedHolders" by force
  qed
  show "\<forall>s \<in> set qualifiedHolders.
         tokenCount s = tokensHeld (fetched tokens) (HolderSummary.address s) \<and>
         totalValueUsd s = valueHeld (fetched tokens) (HolderSummary.address s) \<and>
         fst ` set (holdings s) = tokensOf (fetched tokens) (HolderSummary.address s)"
  proof
    fix s assume "s \<in> set qualifiedHolders"
    then have "s \<in> set (map snd counts)" unfolding setq by simp
    from v(2) [OF this]
    show "tokenCount s = tokensHeld (fetched tokens) (HolderSummary.address s) \<and>
         totalValueUsd s = valueHeld (fetched tokens) (HolderSummary.address s) \<and>
         fst ` set (holdings s) = tokensOf (fetched tokens) (HolderSummary.address s)"
      by (simp add: summaryOk_def)
  qed
qed

section \<open>The intersection\<close>

lemma set_new_Set_aux:
  "set (foldl (\<lambda>s x. if x \<in> set s then s else s @ [x]) acc xs) = set acc \<union> set xs"
  by (induction xs arbitrary: acc) auto

lemma set_new_Set: "set (new_Set xs) = set xs"
  by (simp add: new_Set_def set_new_Set_aux)

lemma set_intersect:
  "set (foldl (\<lambda>commonHolders s. filter (\<lambda>holder. holder \<in> set s) commonHolders) first others)
     = set first \<inter> (\<Inter>s \<in> set others. set s)"
  by (induction others arbitrary: first) auto

lemma promise_all_fulfilled:
  "\<forall>y \<in> set ys. \<exists>v. g y = Some (Inr v) \<Longrightarrow>
   promise_all (map g ys) = Some (Inr (map (\<lambda>y. case g y of Some (Inr v) \<Rightarrow> v) ys))"
  by (induction ys) auto

lemma findCommonHolders_returns:
  assumes all: "\<forall>y \<in> set ys. \<exists>H0. fetchOutcome_p0 y = Some (Inr H0)" and ne: "ys \<noteq> []"
  shows "\<exists>c d. findCommonHolders ys = Some (Inr (c, d)) \<and>
           set c = (\<Inter>y \<in> set ys. TokenHolder.address ` set (holdersFetched_p0 y))"
proof -
  let ?g = "\<lambda>(mintAddress, rs).
                     case snd (getTokenHolders_p0 mintAddress rs) of
                       None \<Rightarrow> None
                     | Some (Inl e) \<Rightarrow> Some (Inl e)
                     | Some (Inr holders) \<Rightarrow> Some (Inr (mintAddress, holders))"
  have g: "?g y = Some (Inr (fst y, holdersFetched_p0 y))" if "y \<in> set ys" for y
  proof -
    from all that obtain H0 where "fetchOutcome_p0 y = Some (Inr H0)" by blast
    then show ?thesis
      by (cases y) (simp add: fetchOutcome_p0_def holdersFetched_p0_def)
  qed
  then have "\<forall>y \<in> set ys. \<exists>v. ?g y = Some (Inr v)" by blast
  from promise_all_fulfilled [of ys ?g, OF this]
  have "promise_all (map ?g ys) = Some (Inr (map (\<lambda>y. case ?g y of Some (Inr v) \<Rightarrow> v) ys))" .
  also have "map (\<lambda>y. case ?g y of Some (Inr v) \<Rightarrow> v) ys
               = map (\<lambda>y. (fst y, holdersFetched_p0 y)) ys"
    by (rule map_cong [OF refl]) (simp add: g)
  finally have pa: "promise_all (map ?g ys)
                      = Some (Inr (map (\<lambda>y. (fst y, holdersFetched_p0 y)) ys))" .
  from ne obtain y ys' where ys: "ys = y # ys'" by (cases ys) auto
  let ?first = "new_Set (map TokenHolder.address (holdersFetched_p0 y))"
  let ?others = "map (\<lambda>y. new_Set (map TokenHolder.address (holdersFetched_p0 y))) ys'"
  let ?c = "foldl (\<lambda>commonHolders s. filter (\<lambda>holder. holder \<in> set s) commonHolders)
              ?first ?others"
  have "\<exists>d. findCommonHolders ys = Some (Inr (?c, d))"
    unfolding findCommonHolders_def pa by (simp add: ys comp_def case_prod_unfold)
  moreover have "set ?c = (\<Inter>y \<in> set ys. TokenHolder.address ` set (holdersFetched_p0 y))"
    by (simp add: set_intersect set_new_Set ys)
  ultimately show ?thesis by blast
qed

lemma tokensHeld_all:
  "tokensHeld done a = length done \<longleftrightarrow> (\<forall>x \<in> set done. holds a x)"
proof -
  have "length (filter (holds a) done) + length (filter (\<lambda>x. \<not> holds a x) done) = length done"
    by (rule sum_length_filter_compl)
  then have "tokensHeld done a = length done \<longleftrightarrow> filter (\<lambda>x. \<not> holds a x) done = []"
    by (auto simp: tokensHeld_def)
  then show ?thesis by (simp add: filter_empty_conv)
qed

lemma tokensHeld_le: "tokensHeld done a \<le> length done"
  by (simp add: tokensHeld_def)

lemma sameHolders_Inter:
  "list_all2 sameHolders xs ys \<Longrightarrow>
   (\<forall>x \<in> set (fetched xs). holds a x)
     \<longleftrightarrow> a \<in> (\<Inter>y \<in> set ys. TokenHolder.address ` set (holdersFetched_p0 y))"
proof (induction rule: list_all2_induct)
  case Nil
  then show ?case by (simp add: fetched_def)
next
  case (Cons x xs y ys)
  from Cons.hyps(1) obtain H H0 where
    o: "fetchOutcome x = Some (Inr H)" "fetchOutcome_p0 y = Some (Inr H0)" and
    eq: "TokenHolder.address ` set H = TokenHolder.address ` set H0"
    by (auto simp: sameHolders_def)
  from o have "holdersFetched x = H" "holdersFetched_p0 y = H0"
    by (simp_all add: holdersFetched_def holdersFetched_p0_def)
  with eq have "holds a (fst x, holdersFetched x)
      \<longleftrightarrow> a \<in> TokenHolder.address ` set (holdersFetched_p0 y)"
    by (simp add: holds_def)
  with Cons.IH show ?case
    by (simp add: fetched_Cons)
qed

lemma sameHolders_all:
  "list_all2 sameHolders xs ys \<Longrightarrow>
   (\<forall>x \<in> set xs. \<exists>H. fetchOutcome x = Some (Inr H)) \<and>
   (\<forall>y \<in> set ys. \<exists>H0. fetchOutcome_p0 y = Some (Inr H0))"
  by (induction rule: list_all2_induct) (auto simp: sameHolders_def)

section \<open>The dispatch loop of the rate limiter\<close>

declare run.simps [simp del]

lemma waiting_elapse: "waiting (elapse ms w) = waiting w"
proof -
  have "length (takeWhile P xs) + length (dropWhile P xs) = length xs" for P and xs :: "job list"
    by (metis length_append takeWhile_dropWhile_id)
  then show ?thesis
    by (simp add: waiting_def elapse_def add.assoc)
qed

lemma waiting_skew: "waiting (w\<lparr>skew := ds\<rparr>) = waiting w"
  by (simp add: waiting_def)

lemma waiting_setTimeout: "waiting (setTimeout ms w) = waiting w"
  by (simp add: setTimeout_def waiting_elapse waiting_skew split: list.splits)

lemma waiting_resetCounter: "waiting (resetCounter w) = waiting w"
  by (simp add: waiting_def resetCounter_def)

lemma waiting_throttle: "waiting (throttle w) = waiting w"
  by (simp add: throttle_def Let_def waiting_resetCounter waiting_setTimeout)

lemma waiting_issue:
  "queue (limiter w) = task # rest \<Longrightarrow> Suc (waiting (issue task rest w)) = waiting w"
  by (simp add: issue_def waiting_setTimeout waiting_elapse) (simp add: waiting_def)

lemma waiting_processing: "waiting (w\<lparr>limiter := (limiter w)\<lparr>processing := b\<rparr>\<rparr>) = waiting w"
  by (simp add: waiting_def)

lemma clock_elapse: "clock (elapse ms w) = clock w + ms"
  by (simp add: elapse_def)

lemma dispatched_elapse: "dispatched (elapse ms w) = dispatched w"
  by (simp add: elapse_def)

lemma skew_elapse: "skew (elapse ms w) = skew w"
  by (simp add: elapse_def)

lemma earlyBy_setTimeout: "earlyBy early (skew w) \<Longrightarrow> earlyBy early (skew (setTimeout ms w))"
  by (auto simp: setTimeout_def skew_elapse earlyBy_def split: list.splits)

lemma earlyBy_throttle: "earlyBy early (skew w) \<Longrightarrow> earlyBy early (skew (throttle w))"
  using earlyBy_setTimeout [of early w]
  by (auto simp: throttle_def Let_def resetCounter_def)

lemma earlyBy_issue: "earlyBy early (skew w) \<Longrightarrow> earlyBy early (skew (issue task rest w))"
  unfolding issue_def by (rule earlyBy_setTimeout) (simp add: skew_elapse)

lemma clock_setTimeout_mono: "clock w \<le> clock (setTimeout ms w)"
  by (simp add: setTimeout_def clock_elapse split: list.splits)

lemma clock_setTimeout:
  "earlyBy early (skew w) \<Longrightarrow> clock w + ms \<le> clock (setTimeout ms w) + early"
  by (auto simp: setTimeout_def clock_elapse earlyBy_def split: list.splits)

lemma dispatched_setTimeout: "dispatched (setTimeout ms w) = dispatched w"
  by (simp add: setTimeout_def dispatched_elapse split: list.splits)

lemma clock_throttle: "clock w \<le> clock (throttle w)"
  using clock_setTimeout_mono [of w]
  by (auto simp: throttle_def Let_def resetCounter_def)

lemma dispatched_throttle: "dispatched (throttle w) = dispatched w"
  by (simp add: throttle_def Let_def resetCounter_def dispatched_setTimeout)

lemma clock_issue:
  assumes "earlyBy early (skew w)"
  shows "clock w + MIN_TIME_BETWEEN_REQUESTS \<le> clock (issue task rest w) + early"
proof -
  let ?w = "elapse (duration task)
          (w\<lparr>limiter := (limiter w)
                \<lparr>queue := rest,
                 requestsInLastSecond := requestsInLastSecond (limiter w) + 1,
                 lastRequestTime := clock w\<rparr>,
              dispatched := clock w # dispatched w\<rparr>)"
  have "clock w \<le> clock ?w" by (simp add: clock_elapse)
  then have "clock w + MIN_TIME_BETWEEN_REQUESTS \<le> clock ?w + MIN_TIME_BETWEEN_REQUESTS" by simp
  also have "\<dots> \<le> clock (issue task rest w) + early"
    unfolding issue_def using assms by (intro clock_setTimeout) (simp add: skew_elapse)
  finally show ?thesis .
qed

lemma clock_issue_mono: "clock w \<le> clock (issue task rest w)"
proof -
  let ?w = "elapse (duration task)
          (w\<lparr>limiter := (limiter w)
                \<lparr>queue := rest,
                 requestsInLastSecond := requestsInLastSecond (limiter w) + 1,
                 lastRequestTime := clock w\<rparr>,
              dispatched := clock w # dispatched w\<rparr>)"
  have "clock w \<le> clock ?w" by (simp add: clock_elapse)
  also have "\<dots> \<le> clock (issue task rest w)"
    unfolding issue_def by (rule clock_setTimeout_mono)
  finally show ?thesis .
qed

lemma dispatched_issue: "dispatched (issue task rest w) = clock w # dispatched w"
  by (simp add: issue_def dispatched_setTimeout dispatched_elapse)

lemma spaced_nth:
  "spaced gap ts \<Longrightarrow> i < j \<Longrightarrow> j < length ts \<Longrightarrow> ts ! j + gap \<le> ts ! i"
  by (simp add: spaced_def sorted_wrt_iff_nth_less)

lemma spaced_nth_le:
  "spaced gap ts \<Longrightarrow> i \<le> j \<Longrightarrow> j < length ts \<Longrightarrow> ts ! j \<le> ts ! i"
  using spaced_nth [of gap ts i j] by (cases "i = j") auto

lemma lastRequestTime_elapse: "lastRequestTime (limiter (elapse ms w)) = lastRequestTime (limiter w)"
  by (simp add: elapse_def)

lemma lastRequestTime_setTimeout:
  "lastRequestTime (limiter (setTimeout ms w)) = lastRequestTime (limiter w)"
  by (simp add: setTimeout_def lastRequestTime_elapse split: list.splits)

lemma requests_elapse:
  "requestsInLastSecond (limiter (elapse ms w)) = requestsInLastSecond (limiter w)"
  by (simp add: elapse_def)

lemma requests_setTimeout:
  "requestsInLastSecond (limiter (setTimeout ms w)) = requestsInLastSecond (limiter w)"
  by (simp add: setTimeout_def requests_elapse split: list.splits)

lemma lastRequestTime_throttle:
  "lastRequestTime (limiter (throttle w)) = lastRequestTime (limiter w)"
  by (simp add: throttle_def Let_def resetCounter_def lastRequestTime_setTimeout)

lemma throttle_cases:
  assumes early: "earlyBy early (skew w)"
  shows
  "(requestsInLastSecond (limiter (throttle w)) = 0 \<and>
      lastRequestTime (limiter w) + 1000 \<le> clock (throttle w) + early) \<or>
   (requestsInLastSecond (limiter (throttle w)) = requestsInLastSecond (limiter w) \<and>
      requestsInLastSecond (limiter w) < MAX_REQUESTS_PER_SECOND)"
proof (cases "requestsInLastSecond (limiter w) \<ge> MAX_REQUESTS_PER_SECOND")
  case False
  then show ?thesis
    by (auto simp: throttle_def Let_def resetCounter_def)
next
  case full: True
  let ?wait = "1000 - (int (clock w) - int (lastRequestTime (limiter w)))"
  show ?thesis
  proof (cases "?wait > 0")
    case True
    let ?w = "setTimeout (nat ?wait) w"
    from True have t: "throttle w = resetCounter ?w"
      using full
      by (simp add: throttle_def Let_def resetCounter_def lastRequestTime_setTimeout)
    from True clock_setTimeout [OF early, of "nat ?wait"]
    have "lastRequestTime (limiter w) + 1000 \<le> clock ?w + early" by linarith
    then show ?thesis
      by (simp add: t resetCounter_def)
  next
    case False
    then show ?thesis
      using full by (auto simp: throttle_def Let_def resetCounter_def)
  qed
qed

lemma queue_elapse: "\<exists>more. queue (limiter (elapse ms w)) = queue (limiter w) @ more"
  by (simp add: elapse_def)

lemma queue_setTimeout: "\<exists>more. queue (limiter (setTimeout ms w)) = queue (limiter w) @ more"
  using queue_elapse [of ms w] queue_elapse [of _ "w\<lparr>skew := _\<rparr>"]
  by (auto simp: setTimeout_def split: list.splits)

lemma queue_throttle: "\<exists>more. queue (limiter (throttle w)) = queue (limiter w) @ more"
  using queue_setTimeout [of _ w]
  by (auto simp: throttle_def Let_def resetCounter_def)

lemma total_throttle: "total (throttle w) = total w"
  by (simp add: total_def waiting_throttle dispatched_throttle)

lemma total_issue: "queue (limiter w) = task # rest \<Longrightarrow> total (issue task rest w) = total w"
  using waiting_issue [of w task rest] by (simp add: total_def dispatched_issue)

lemma processQueue_idle_total:
  "idle (processQueue w) \<and> total (processQueue w) = total w"
proof (induction w rule: processQueue.induct)
  case (1 w)
  show ?case
  proof (cases "queue (limiter w) = []")
    case True
    then show ?thesis
      by (subst (1 2) processQueue.simps) (simp add: idle_def total_def waiting_def)
  next
    case False
    let ?w1 = "w\<lparr>limiter := (limiter w)\<lparr>processing := True\<rparr>\<rparr>"
    let ?w' = "throttle ?w1"
    from queue_throttle [of ?w1] False obtain task rest where
      q: "queue (limiter ?w') = task # rest"
      by (cases "queue (limiter ?w')") auto
    have "total ?w' = total w"
      by (simp add: total_throttle) (simp add: total_def waiting_def)
    with "1.IH" [OF False refl q] total_issue [OF q] show ?thesis
      by (subst (1 2) processQueue.simps) (simp add: Let_def False q)
  qed
qed

lemma run_all:
  "idle w \<Longrightarrow> idle (run w) \<and> arrivals (run w) = [] \<and> total (run w) = total w"
proof (induction w rule: run.induct)
  case (1 w)
  show ?case
  proof (cases "arrivals w")
    case Nil
    with "1.prems" show ?thesis by (subst (1 2 3) run.simps) simp
  next
    case (Cons task later)
    let ?w = "w\<lparr>clock := max (clock w) (submitted task), arrivals := later\<rparr>"
    let ?w' = "?w\<lparr>limiter := (limiter ?w)\<lparr>queue := queue (limiter ?w) @ [task]\<rparr>\<rparr>"
    from "1.prems" have a: "addToQueue task ?w = processQueue ?w'"
      by (simp add: addToQueue_def Let_def idle_def)
    have t: "total ?w' = total w"
      using Cons by (simp add: total_def waiting_def)
    from processQueue_idle_total [of ?w'] a t
    have "idle (addToQueue task ?w)" "total (addToQueue task ?w) = total w"
      by simp_all
    with "1.IH" [OF Cons] Cons show ?thesis
      by (subst (1 2 3) run.simps) simp
  qed
qed

lemma spaced_chain:
  "spaced gap ts \<Longrightarrow> i \<le> j \<Longrightarrow> j < length ts \<Longrightarrow> ts ! j + (j - i) * gap \<le> ts ! i"
proof (induction "j - i" arbitrary: j)
  case 0
  then show ?case by simp
next
  case (Suc n)
  then obtain k where k: "j = Suc k" "i \<le> k" "n = k - i" by (cases j) auto
  from Suc.hyps(1) [OF k(3) Suc.prems(1) k(2)] Suc.prems(3) k(1)
  have "ts ! k + (k - i) * gap \<le> ts ! i" by simp
  moreover from spaced_nth [OF Suc.prems(1), of k j] Suc.prems(3) k(1)
  have "ts ! j + gap \<le> ts ! k" by simp
  moreover have "(j - i) * gap = (k - i) * gap + gap" using k by (simp add: Suc_diff_le)
  ultimately show ?case by linarith
qed

lemma nine_apart:
  assumes s: "spaced (MIN_TIME_BETWEEN_REQUESTS - early) ts" and e: "early \<le> 109"
    and m: "1 \<le> m" "m \<le> MAX_REQUESTS_PER_SECOND"
    and len: "MAX_REQUESTS_PER_SECOND < length ts"
    and gap: "ts ! m + (1000 - early) \<le> ts ! (m - 1)"
  shows "ts ! MAX_REQUESTS_PER_SECOND + 1000 < ts ! 0"
proof -
  let ?g = "MIN_TIME_BETWEEN_REQUESTS - early"
  from spaced_chain [OF s m(2) len]
  have a: "ts ! MAX_REQUESTS_PER_SECOND + (MAX_REQUESTS_PER_SECOND - m) * ?g \<le> ts ! m" .
  have b: "ts ! (m - 1) + (m - 1) * ?g \<le> ts ! 0"
    using spaced_chain [OF s, of 0 "m - 1"] m len by simp
  have "(MAX_REQUESTS_PER_SECOND - m) * ?g + (m - 1) * ?g = 7 * ?g"
    using m by (simp add: distrib_right [symmetric] MAX_REQUESTS_PER_SECOND_def)
  moreover have "7 * ?g = 875 - 7 * early"
    using e by (simp add: MIN_TIME_BETWEEN_REQUESTS_def MAX_REQUESTS_PER_SECOND_def)
  ultimately have "(MAX_REQUESTS_PER_SECOND - m) * ?g + (m - 1) * ?g = 875 - 7 * early"
    by simp
  with a b gap e show ?thesis by linarith
qed

lemma paced_issue:
  assumes p: "paced early w" and e: "early \<le> 109"
  defines "w' \<equiv> throttle (w\<lparr>limiter := (limiter w)\<lparr>processing := True\<rparr>\<rparr>)"
  shows "paced early (issue task rest w')"
proof -
  let ?w1 = "w\<lparr>limiter := (limiter w)\<lparr>processing := True\<rparr>\<rparr>"
  let ?ts = "dispatched w"
  let ?n = "requestsInLastSecond (limiter w)"
  let ?n' = "requestsInLastSecond (limiter w')"
  let ?c = "clock w'"
  let ?ts' = "?c # ?ts"
  let ?m = "?n' + 1"
  from p have sk: "earlyBy early (skew w)"
    and sp: "spaced (MIN_TIME_BETWEEN_REQUESTS - early) ?ts"
    and cl: "\<forall>t \<in> set ?ts. t + (MIN_TIME_BETWEEN_REQUESTS - early) \<le> clock w"
    and la: "?ts \<noteq> [] \<Longrightarrow> lastRequestTime (limiter w) = hd ?ts \<and> 1 \<le> ?n"
    and nl: "?n \<le> length ?ts" and n8: "?n \<le> MAX_REQUESTS_PER_SECOND"
    and gap: "?n < length ?ts \<Longrightarrow> ?ts ! ?n + (1000 - early) \<le> ?ts ! (?n - 1)"
    and far: "\<And>i. i + MAX_REQUESTS_PER_SECOND < length ?ts \<Longrightarrow>
                ?ts ! (i + MAX_REQUESTS_PER_SECOND) + 1000 < ?ts ! i"
    by (simp_all add: paced_def)
  have dw': "dispatched w' = ?ts"
    by (simp add: w'_def dispatched_throttle)
  have cw': "clock w \<le> ?c"
    using clock_throttle [of ?w1] by (simp add: w'_def)
  from sk have sk1: "earlyBy early (skew ?w1)" by simp
  from earlyBy_throttle [OF sk1] have sk': "earlyBy early (skew w')" by (simp add: w'_def)
  from throttle_cases [OF sk1]
  consider (reset) "?n' = 0" "lastRequestTime (limiter w) + 1000 \<le> ?c + early"
    | (same) "?n' = ?n" "?n < MAX_REQUESTS_PER_SECOND"
    by (auto simp: w'_def)
  note cases = this
  have d: "dispatched (issue task rest w') = ?ts'"
    by (simp add: dispatched_issue dw')
  have r: "requestsInLastSecond (limiter (issue task rest w')) = ?m"
    by (simp add: issue_def requests_setTimeout requests_elapse)
  have l: "lastRequestTime (limiter (issue task rest w')) = ?c"
    by (simp add: issue_def lastRequestTime_setTimeout lastRequestTime_elapse)
  have sp': "spaced (MIN_TIME_BETWEEN_REQUESTS - early) ?ts'"
    using sp cl cw' by (auto simp: spaced_def)
  have cl': "\<forall>t \<in> set ?ts'.
               t + (MIN_TIME_BETWEEN_REQUESTS - early) \<le> clock (issue task rest w')"
  proof
    fix t
    assume "t \<in> set ?ts'"
    then consider "t = ?c" | "t \<in> set ?ts" by auto
    then show "t + (MIN_TIME_BETWEEN_REQUESTS - early) \<le> clock (issue task rest w')"
    proof cases
      case 1
      have "early \<le> MIN_TIME_BETWEEN_REQUESTS"
        using e by (simp add: MIN_TIME_BETWEEN_REQUESTS_def MAX_REQUESTS_PER_SECOND_def)
      with 1 clock_issue [OF sk', of task rest] show ?thesis by linarith
    next
      case 2
      with cl cw' clock_issue_mono [of w' task rest] show ?thesis by fastforce
    qed
  qed
  have ml: "?m \<le> length ?ts'"
    using cases nl by cases simp_all
  have m8: "?m \<le> MAX_REQUESTS_PER_SECOND"
    using cases by cases (simp_all add: MAX_REQUESTS_PER_SECOND_def)
  have gap': "?ts' ! ?m + (1000 - early) \<le> ?ts' ! (?m - 1)" if "?m < length ?ts'"
    using cases
  proof cases
    case reset
    from that reset(1) have ne: "?ts \<noteq> []" by auto
    with la have "lastRequestTime (limiter w) = ?ts ! 0" by (simp add: hd_conv_nth)
    with reset e show ?thesis by simp
  next
    case same
    from that same(1) have lt: "?n < length ?ts" by simp
    then have "?ts \<noteq> []" by auto
    with la have "1 \<le> ?n" by simp
    with gap [OF lt] same(1) show ?thesis by (simp add: nth_Cons')
  qed
  have far': "?ts' ! (i + MAX_REQUESTS_PER_SECOND) + 1000 < ?ts' ! i"
    if "i + MAX_REQUESTS_PER_SECOND < length ?ts'" for i
  proof (cases i)
    case 0
    from that 0 have len: "MAX_REQUESTS_PER_SECOND < length ?ts'" by simp
    with m8 have "?m < length ?ts'" by simp
    from nine_apart [OF sp' e _ m8 len gap' [OF this]] 0 show ?thesis by simp
  next
    case (Suc k)
    with that far [of k] show ?thesis by simp
  qed
  show ?thesis
    unfolding paced_def d r l
    using earlyBy_issue [OF sk'] sp' cl' ml m8 gap' far' by simp
qed

lemma paced_processQueue: "early \<le> 109 \<Longrightarrow> paced early w \<Longrightarrow> paced early (processQueue w)"
proof (induction w rule: processQueue.induct)
  case (1 w)
  show ?case
  proof (cases "queue (limiter w) = []")
    case True
    with "1.prems" show ?thesis
      by (subst processQueue.simps) (simp add: paced_def)
  next
    case False
    let ?w' = "throttle (w\<lparr>limiter := (limiter w)\<lparr>processing := True\<rparr>\<rparr>)"
    from queue_throttle [of "w\<lparr>limiter := (limiter w)\<lparr>processing := True\<rparr>\<rparr>"] False
    obtain task rest where q: "queue (limiter ?w') = task # rest"
      by (cases "queue (limiter ?w')") auto
    from "1.IH" [OF False refl q "1.prems"(1) paced_issue [OF "1.prems"(2,1)]]
    show ?thesis
      by (subst processQueue.simps) (simp add: Let_def False q)
  qed
qed

lemma paced_addToQueue:
  assumes "early \<le> 109" "paced early w"
  shows "paced early (addToQueue task w)"
proof -
  from assms(2)
  have "paced early (w\<lparr>limiter := (limiter w)\<lparr>queue := queue (limiter w) @ [task]\<rparr>\<rparr>)"
    by (simp add: paced_def)
  with assms(1) show ?thesis
    by (simp add: addToQueue_def Let_def paced_processQueue)
qed

lemma paced_run: "early \<le> 109 \<Longrightarrow> paced early w \<Longrightarrow> paced early (run w)"
proof (induction w rule: run.induct)
  case (1 w)
  show ?case
  proof (cases "arrivals w")
    case Nil
    with "1.prems" show ?thesis by (subst run.simps) simp
  next
    case (Cons task later)
    from "1.prems"(2)
    have "paced early (w\<lparr>clock := max (clock w) (submitted task), arrivals := later\<rparr>)"
      by (fastforce simp: paced_def)
    from "1.IH" [OF Cons "1.prems"(1) paced_addToQueue [OF "1.prems"(1) this]] Cons show ?thesis
      by (subst run.simps) simp
  qed
qed

lemma window_bound:
  assumes "spaced gap ts"
    and "\<forall>i. i + MAX_REQUESTS_PER_SECOND < length ts \<longrightarrow>
              ts ! (i + MAX_REQUESTS_PER_SECOND) + 1000 < ts ! i"
  shows "length (filter (\<lambda>x. t \<le> x \<and> x \<le> t + 1000) ts) \<le> MAX_REQUESTS_PER_SECOND"
  using assms
proof (induction ts)
  case Nil
  then show ?case by simp
next
  case (Cons a rest)
  let ?P = "\<lambda>x. t \<le> x \<and> x \<le> t + 1000"
  from Cons.prems(1) have sp: "spaced gap rest" by (simp add: spaced_def)
  have far: "\<forall>i. i + MAX_REQUESTS_PER_SECOND < length rest \<longrightarrow>
              rest ! (i + MAX_REQUESTS_PER_SECOND) + 1000 < rest ! i"
  proof (intro allI impI)
    fix i assume "i + MAX_REQUESTS_PER_SECOND < length rest"
    with Cons.prems(2) [rule_format, of "Suc i"]
    show "rest ! (i + MAX_REQUESTS_PER_SECOND) + 1000 < rest ! i" by simp
  qed
  show ?case
  proof (cases "?P a")
    case False
    with Cons.IH [OF sp far] show ?thesis by auto
  next
    case True
    have "length (filter ?P rest) \<le> 7"
    proof (cases "length rest \<le> 7")
      case True
      with length_filter_le [of ?P rest] show ?thesis by linarith
    next
      case False
      then have len: "7 < length rest" by simp
      from Cons.prems(2) [rule_format, of 0] len
      have "rest ! 7 + 1000 < a" by (simp add: MAX_REQUESTS_PER_SECOND_def)
      with True have old: "rest ! 7 < t" by simp
      have "\<not> ?P y" if "y \<in> set (drop 7 rest)" for y
      proof -
        from that obtain j where j: "j < length (drop 7 rest)" "y = drop 7 rest ! j"
          by (auto simp: in_set_conv_nth)
        then have "y = rest ! (7 + j)" "7 + j < length rest" by simp_all
        with spaced_nth_le [OF sp, of 7 "7 + j"] old show ?thesis by simp
      qed
      then have "filter ?P (drop 7 rest) = []"
        by (simp add: filter_empty_conv)
      moreover have "filter ?P rest = filter ?P (take 7 rest) @ filter ?P (drop 7 rest)"
        by (simp only: filter_append [symmetric] append_take_drop_id)
      ultimately have "filter ?P rest = filter ?P (take 7 rest)"
        by simp
      with length_filter_le [of ?P "take 7 rest"] show ?thesis by simp
    qed
    with True show ?thesis by (simp add: MAX_REQUESTS_PER_SECOND_def)
  qed
qed

section \<open>Claims about the holder fetcher\<close>

lemmas run_simps = getTokenHolders_def getTokenHolders_p0_def array_sort_def addAccount_def
  addAccount_p0_def ok_def exAccount_def exPage_def exFailure_def exToken_def exHolder_def

text \<open>
  Claim C1, as the code has it. When a fetch returns, every address that owns a record read
  has one holder in the result and no address has two. The amount of each holder is the
  running sum of doubles, from 0 and in the order read, of the amounts of all the records
  read (over all pages) that the holder's address owns; it is the sum of those amounts when
  they are whole numbers, none negative, and their sum is at most \<open>2 ^ 53\<close>. In
  \<^verbatim>\<open>script.ts\<close> the holder's value in USD is the product of doubles of that amount and the
  price given; the second script takes no price and gives its holders no value.
\<close>

theorem holder_balance_is_running_sum:
  "(snd (getTokenHolders m price rs) = Some (Inr H) \<longrightarrow>
      distinct (map TokenHolder.address H) \<and>
      (\<forall>a \<in> TokenAccount.owner ` set (recordsRead rs). a \<in> TokenHolder.address ` set H) \<and>
      (\<forall>h \<in> set H.
         TokenHolder.amount h = balanceOf (recordsRead rs) (TokenHolder.address h) \<and>
         TokenHolder.valueUsd h = Some (double (TokenHolder.amount h * price)) \<and>
         ((\<forall>x \<in> set (recordsOf (recordsRead rs) (TokenHolder.address h)).
              TokenAccount.amount x \<in> \<nat>) \<and>
          sumOfAmounts (recordsRead rs) (TokenHolder.address h) \<le> 2 ^ 53 \<longrightarrow>
          TokenHolder.amount h = sumOfAmounts (recordsRead rs) (TokenHolder.address h)))) \<and>
   (snd (getTokenHolders_p0 m rs) = Some (Inr H0) \<longrightarrow>
      distinct (map TokenHolder.address H0) \<and>
      (\<forall>a \<in> TokenAccount.owner ` set (recordsRead rs). a \<in> TokenHolder.address ` set H0) \<and>
      (\<forall>h \<in> set H0.
         TokenHolder.amount h = balanceOf (recordsRead rs) (TokenHolder.address h) \<and>
         TokenHolder.valueUsd h = None \<and>
         ((\<forall>x \<in> set (recordsOf (recordsRead rs) (TokenHolder.address h)).
              TokenAccount.amount x \<in> \<nat>) \<and>
          sumOfAmounts (recordsRead rs) (TokenHolder.address h) \<le> 2 ^ 53 \<longrightarrow>
          TokenHolder.amount h = sumOfAmounts (recordsRead rs) (TokenHolder.address h))))"
proof (intro conjI impI)
  assume a: "snd (getTokenHolders m price rs) = Some (Inr H)"
  note r = getTokenHolders_result [OF a]
  show "distinct (map TokenHolder.address H)" by (rule r(1))
  show "\<forall>a \<in> TokenAccount.owner ` set (recordsRead rs). a \<in> TokenHolder.address ` set H"
    unfolding r(2) by (force simp: holderFor_def)
  show "\<forall>h \<in> set H.
         TokenHolder.amount h = balanceOf (recordsRead rs) (TokenHolder.address h) \<and>
         TokenHolder.valueUsd h = Some (double (TokenHolder.amount h * price)) \<and>
         ((\<forall>x \<in> set (recordsOf (recordsRead rs) (TokenHolder.address h)).
              TokenAccount.amount x \<in> \<nat>) \<and>
          sumOfAmounts (recordsRead rs) (TokenHolder.address h) \<le> 2 ^ 53 \<longrightarrow>
          TokenHolder.amount h = sumOfAmounts (recordsRead rs) (TokenHolder.address h))"
    unfolding r(2) by (auto simp: holderFor_def balanceOf_exact)
next
  assume a: "snd (getTokenHolders_p0 m rs) = Some (Inr H0)"
  note r = getTokenHolders_p0_result [OF a]
  show "distinct (map TokenHolder.address H0)" by (rule r(1))
  show "\<forall>a \<in> TokenAccount.owner ` set (recordsRead rs). a \<in> TokenHolder.address ` set H0"
    unfolding r(2) by (force simp: holderFor_p0_def)
  show "\<forall>h \<in> set H0.
         TokenHolder.amount h = balanceOf (recordsRead rs) (TokenHolder.address h) \<and>
         TokenHolder.valueUsd h = None \<and>
         ((\<forall>x \<in> set (recordsOf (recordsRead rs) (TokenHolder.address h)).
              TokenAccount.amount x \<in> \<nat>) \<and>
          sumOfAmounts (recordsRead rs) (TokenHolder.address h) \<le> 2 ^ 53 \<longrightarrow>
          TokenHolder.amount h = sumOfAmounts (recordsRead rs) (TokenHolder.address h))"
    unfolding r(2) by (auto simp: holderFor_p0_def balanceOf_exact)
qed

theorem holder_balance_is_running_sum_witness:
  "snd (getTokenHolders ''M'' 2
          [exPage [exAccount ''x'' 3, exAccount ''y'' 5], exFailure 429,
           exPage [exAccount ''x'' 4], exPage []])
     = Some (Inr [exHolder ''x'' 7 (Some 14), exHolder ''y'' 5 (Some 10)]) \<and>
   balanceOf (recordsRead [exPage [exAccount ''x'' 3, exAccount ''y'' 5], exFailure 429,
                           exPage [exAccount ''x'' 4], exPage []]) ''x'' = 7 \<and>
   sumOfAmounts (recordsRead [exPage [exAccount ''x'' 3, exAccount ''y'' 5], exFailure 429,
                              exPage [exAccount ''x'' 4], exPage []]) ''x'' = 7 \<and>
   snd (getTokenHolders_p0 ''M''
          [exPage [exAccount ''x'' 3, exAccount ''y'' 5], exPage [exAccount ''x'' 4], exPage []])
     = Some (Inr [exHolder ''x'' 7 None, exHolder ''y'' 5 None]) \<and>
   balanceOf (recordsRead [exPage [exAccount ''x'' 3, exAccount ''y'' 5],
                           exPage [exAccount ''x'' 4], exPage []]) ''x'' = 7 \<and>
   sumOfAmounts (recordsRead [exPage [exAccount ''x'' 3, exAccount ''y'' 5],
                              exPage [exAccount ''x'' 4], exPage []]) ''x'' = 7"
proof -
  let ?rs = "[exPage [exAccount ''x'' 3, exAccount ''y'' 5], exFailure 429,
              exPage [exAccount ''x'' 4], exPage []]"
  let ?rsp = "[exPage [exAccount ''x'' 3, exAccount ''y'' 5], exPage [exAccount ''x'' 4],
               exPage []]"
  have h1: "snd (getTokenHolders ''M'' 2 ?rs)
     = Some (Inr [exHolder ''x'' 7 (Some 14), exHolder ''y'' 5 (Some 10)])"
    by (simp add: run_simps)
  have h2: "snd (getTokenHolders_p0 ''M'' ?rsp)
     = Some (Inr [exHolder ''x'' 7 None, exHolder ''y'' 5 None])"
    by (simp add: run_simps)
  have rr: "recordsOf (recordsRead ?rs) ''x'' = [exAccount ''x'' 3, exAccount ''x'' 4]"
    "recordsOf (recordsRead ?rsp) ''x'' = [exAccount ''x'' 3, exAccount ''x'' 4]"
    by (simp_all add: recordsOf_def recordsRead_def dataPage_def accountsOf_def ok_def
          exPage_def exFailure_def exAccount_def)
  have whole: "\<forall>x \<in> set (recordsOf (recordsRead ?rs) ''x''). TokenAccount.amount x \<in> \<nat>"
    "\<forall>x \<in> set (recordsOf (recordsRead ?rsp) ''x''). TokenAccount.amount x \<in> \<nat>"
    unfolding rr by (simp_all add: exAccount_def)
  have small: "sumOfAmounts (recordsRead ?rs) ''x'' \<le> 2 ^ 53"
    "sumOfAmounts (recordsRead ?rsp) ''x'' \<le> 2 ^ 53"
    unfolding sumOfAmounts_def rr by (simp_all add: exAccount_def)
  from h1 holder_balance_is_running_sum
         [where m = "''M''" and price = 2 and rs = ?rs
            and H = "[exHolder ''x'' 7 (Some 14), exHolder ''y'' 5 (Some 10)]"]
  have c1: "\<forall>h \<in> set [exHolder ''x'' 7 (Some 14), exHolder ''y'' 5 (Some 10)].
      TokenHolder.amount h = balanceOf (recordsRead ?rs) (TokenHolder.address h) \<and>
      ((\<forall>x \<in> set (recordsOf (recordsRead ?rs) (TokenHolder.address h)).
           TokenAccount.amount x \<in> \<nat>) \<and>
       sumOfAmounts (recordsRead ?rs) (TokenHolder.address h) \<le> 2 ^ 53 \<longrightarrow>
       TokenHolder.amount h = sumOfAmounts (recordsRead ?rs) (TokenHolder.address h))"
    by blast
  from h2 holder_balance_is_running_sum
         [where m = "''M''" and rs = ?rsp
            and H0 = "[exHolder ''x'' 7 None, exHolder ''y'' 5 None]"]
  have c2: "\<forall>h \<in> set [exHolder ''x'' 7 None, exHolder ''y'' 5 None].
      TokenHolder.amount h = balanceOf (recordsRead ?rsp) (TokenHolder.address h) \<and>
      ((\<forall>x \<in> set (recordsOf (recordsRead ?rsp) (TokenHolder.address h)).
           TokenAccount.amount x \<in> \<nat>) \<and>
       sumOfAmounts (recordsRead ?rsp) (TokenHolder.address h) \<le> 2 ^ 53 \<longrightarrow>
       TokenHolder.amount h = sumOfAmounts (recordsRead ?rsp) (TokenHolder.address h))"
    by blast
  have mem: "exHolder ''x'' 7 (Some 14) \<in> set [exHolder ''x'' 7 (Some 14), exHolder ''y'' 5 (Some 10)]"
    "exHolder ''x'' 7 None \<in> set [exHolder ''x'' 7 None, exHolder ''y'' 5 None]"
    by simp_all
  have ax: "TokenHolder.address (exHolder ''x'' 7 (Some 14)) = ''x''"
    "TokenHolder.address (exHolder ''x'' 7 None) = ''x''"
    "TokenHolder.amount (exHolder ''x'' 7 (Some 14)) = 7"
    "TokenHolder.amount (exHolder ''x'' 7 None) = 7"
    by (simp_all add: exHolder_def)
  from bspec [OF c1 mem(1)] whole(1) small(1)
  have e1: "7 = balanceOf (recordsRead ?rs) ''x''" "7 = sumOfAmounts (recordsRead ?rs) ''x''"
    unfolding ax by blast+
  from bspec [OF c2 mem(2)] whole(2) small(2)
  have e2: "7 = balanceOf (recordsRead ?rsp) ''x''" "7 = sumOfAmounts (recordsRead ?rsp) ''x''"
    unfolding ax by blast+
  from e1 [symmetric] e2 [symmetric] h1 h2 show ?thesis by blast
qed

text \<open>
  The claim as it is written fails on amounts whose sum is not a double: the records
  \<open>2 ^ 53\<close> and 1 of one owner give the balance \<open>2 ^ 53\<close>, by either fetcher, and their sum
  is \<open>2 ^ 53 + 1\<close>.
\<close>

theorem holder_balance_rounding_counterexample:
  "snd (getTokenHolders ''M'' 1
          [exPage [exAccount ''x'' 9007199254740992, exAccount ''x'' 1], exPage []])
     = Some (Inr [exHolder ''x'' 9007199254740992 (Some 9007199254740992)]) \<and>
   snd (getTokenHolders_p0 ''M''
          [exPage [exAccount ''x'' 9007199254740992, exAccount ''x'' 1], exPage []])
     = Some (Inr [exHolder ''x'' 9007199254740992 None]) \<and>
   sumOfAmounts
     (recordsRead [exPage [exAccount ''x'' 9007199254740992, exAccount ''x'' 1], exPage []])
     ''x'' = 9007199254740993"
  by (simp add: run_simps double_tie sumOfAmounts_def recordsOf_def recordsRead_def
        dataPage_def accountsOf_def)

text \<open>
  Claim C4. A fetch asks for page 1 first and, at each request, for page 1 plus the number
  of pages of data received so far (a rate-limited response of \<^verbatim>\<open>script.ts\<close> repeats the
  page; the second script has no such response among those it survives, so its pages are
  1, 2, 3 and so on). It returns exactly when the responses reach one that ends the data
  after nothing but pages of data (and, in \<^verbatim>\<open>script.ts\<close>, rate-limited responses); the
  request answered by that response is the last one, whatever responses would follow.
\<close>

theorem pagination_stops_at_first_empty_page:
  "(endOfData e \<and> (\<forall>r \<in> set pre. rateLimited r \<or> dataPage r) \<longrightarrow>
      (\<exists>H. snd (getTokenHolders m price (pre @ e # post)) = Some (Inr H)) \<and>
      pagesRequested (fst (getTokenHolders m price (pre @ e # post))) =
        map (\<lambda>i. 1 + length (filter dataPage (take i pre))) [0..<Suc (length pre)]) \<and>
   (snd (getTokenHolders m price rs) = Some (Inr H) \<longrightarrow>
      (\<exists>pre e post. rs = pre @ e # post \<and> endOfData e \<and>
         (\<forall>r \<in> set pre. rateLimited r \<or> dataPage r))) \<and>
   (endOfData e \<and> (\<forall>r \<in> set pre. dataPage r) \<longrightarrow>
      (\<exists>H. snd (getTokenHolders_p0 m (pre @ e # post)) = Some (Inr H)) \<and>
      pagesRequested (fst (getTokenHolders_p0 m (pre @ e # post))) = [1..<length pre + 2]) \<and>
   (snd (getTokenHolders_p0 m rs) = Some (Inr H0) \<longrightarrow>
      (\<exists>pre e post. rs = pre @ e # post \<and> endOfData e \<and> (\<forall>r \<in> set pre. dataPage r)))"
proof (intro conjI impI)
  assume a: "endOfData e \<and> (\<forall>r \<in> set pre. rateLimited r \<or> dataPage r)"
  from fetchPages_to_end [of e pre m price 1 "[]" post] a obtain tr holders' where
    run: "fetchPages m price 1 [] (pre @ e # post) = (tr, Some (Inr holders'))" and
    pages: "pagesRequested tr =
              map (\<lambda>i. 1 + length (filter dataPage (take i pre))) [0..<Suc (length pre)]"
    by blast
  from run show "\<exists>H. snd (getTokenHolders m price (pre @ e # post)) = Some (Inr H)"
    by (simp add: getTokenHolders_returns_iff)
  from run pages show "pagesRequested (fst (getTokenHolders m price (pre @ e # post))) =
        map (\<lambda>i. 1 + length (filter dataPage (take i pre))) [0..<Suc (length pre)]"
    by (simp add: getTokenHolders_fst)
next
  assume "snd (getTokenHolders m price rs) = Some (Inr H)"
  then obtain holders where "snd (fetchPages m price 1 [] rs) = Some (Inr holders)"
    using getTokenHolders_returns_iff [of m price rs] by blast
  then show "\<exists>pre e post. rs = pre @ e # post \<and> endOfData e \<and>
         (\<forall>r \<in> set pre. rateLimited r \<or> dataPage r)"
    by (rule fetchPages_returned_shape)
next
  assume a: "endOfData e \<and> (\<forall>r \<in> set pre. dataPage r)"
  from fetchPages_p0_to_end [of e pre m 1 "[]" post] a obtain tr holders' where
    run: "fetchPages_p0 m 1 [] (pre @ e # post) = (tr, Some (Inr holders'))" and
    pages: "pagesRequested tr = [1..<1 + Suc (length pre)]"
    by blast
  from run show "\<exists>H. snd (getTokenHolders_p0 m (pre @ e # post)) = Some (Inr H)"
    by (simp add: getTokenHolders_p0_returns_iff)
  from run pages show
    "pagesRequested (fst (getTokenHolders_p0 m (pre @ e # post))) = [1..<length pre + 2]"
    by (simp add: getTokenHolders_p0_fst)
next
  assume "snd (getTokenHolders_p0 m rs) = Some (Inr H0)"
  then obtain holders where "snd (fetchPages_p0 m 1 [] rs) = Some (Inr holders)"
    using getTokenHolders_p0_returns_iff [of m rs] by blast
  then show "\<exists>pre e post. rs = pre @ e # post \<and> endOfData e \<and> (\<forall>r \<in> set pre. dataPage r)"
    by (rule fetchPages_p0_returned_shape)
qed

theorem pagination_stops_at_first_empty_page_witness:
  "endOfData (exPage []) \<and>
   dataPage (exPage [exAccount ''x'' 3]) \<and> rateLimited (exFailure 429) \<and>
   dataPage (exPage [exAccount ''x'' 4]) \<and>
   pagesRequested (fst (getTokenHolders ''M'' 2
      ([exPage [exAccount ''x'' 3], exFailure 429, exPage [exAccount ''x'' 4]]
         @ exPage [] # [exPage [exAccount ''z'' 1]]))) = [1, 2, 2, 3] \<and>
   pagesRequested (fst (getTokenHolders_p0 ''M''
      ([exPage [exAccount ''x'' 3], exPage [exAccount ''x'' 4]]
         @ exPage [] # [exPage [exAccount ''z'' 1]]))) = [1, 2, 3] \<and>
   (\<exists>H. snd (getTokenHolders ''M'' 2
      ([exPage [exAccount ''x'' 3], exFailure 429, exPage [exAccount ''x'' 4]]
         @ exPage [] # [exPage [exAccount ''z'' 1]])) = Some (Inr H)) \<and>
   (\<exists>H. snd (getTokenHolders_p0 ''M''
      ([exPage [exAccount ''x'' 3], exPage [exAccount ''x'' 4]]
         @ exPage [] # [exPage [exAccount ''z'' 1]])) = Some (Inr H))"
proof -
  have e: "endOfData (exPage [])"
    by (simp add: endOfData_def ok_def exPage_def)
  have d: "dataPage (exPage [exAccount ''x'' 3])" "rateLimited (exFailure 429)"
    "dataPage (exPage [exAccount ''x'' 4])"
    by (simp_all add: rateLimited_def dataPage_def ok_def exPage_def exFailure_def)
  from d have p1:
    "\<forall>r \<in> set [exPage [exAccount ''x'' 3], exFailure 429, exPage [exAccount ''x'' 4]].
      rateLimited r \<or> dataPage r"
    by simp
  from d have p2: "\<forall>r \<in> set [exPage [exAccount ''x'' 3], exPage [exAccount ''x'' 4]]. dataPage r"
    by simp
  have n1: "map (\<lambda>i. 1 + length (filter dataPage
                (take i [exPage [exAccount ''x'' 3], exFailure 429, exPage [exAccount ''x'' 4]])))
              [0..<Suc (length [exPage [exAccount ''x'' 3], exFailure 429,
                                exPage [exAccount ''x'' 4]])] = [1, 2, 2, 3]"
    by (simp add: dataPage_def ok_def exPage_def exFailure_def upt_conv_Cons del: upt_Suc)
  have n2: "[1..<length [exPage [exAccount ''x'' 3], exPage [exAccount ''x'' 4]] + 2] = [1, 2, 3]"
    by (simp add: upt_conv_Cons del: upt_Suc)
  note t1 = pagination_stops_at_first_empty_page
      [where e = "exPage []"
         and pre = "[exPage [exAccount ''x'' 3], exFailure 429, exPage [exAccount ''x'' 4]]"
         and m = "''M''" and price = 2 and post = "[exPage [exAccount ''z'' 1]]"]
  note t2 = pagination_stops_at_first_empty_page
      [where e = "exPage []"
         and pre = "[exPage [exAccount ''x'' 3], exPage [exAccount ''x'' 4]]"
         and m = "''M''" and post = "[exPage [exAccount ''z'' 1]]"]
  from e p1 t1 n1 have a1:
    "pagesRequested (fst (getTokenHolders ''M'' 2
      ([exPage [exAccount ''x'' 3], exFailure 429, exPage [exAccount ''x'' 4]]
         @ exPage [] # [exPage [exAccount ''z'' 1]]))) = [1, 2, 2, 3]"
    "\<exists>H. snd (getTokenHolders ''M'' 2
      ([exPage [exAccount ''x'' 3], exFailure 429, exPage [exAccount ''x'' 4]]
         @ exPage [] # [exPage [exAccount ''z'' 1]])) = Some (Inr H)"
    by metis+
  from e p2 t2 n2 have a2:
    "pagesRequested (fst (getTokenHolders_p0 ''M''
      ([exPage [exAccount ''x'' 3], exPage [exAccount ''x'' 4]]
         @ exPage [] # [exPage [exAccount ''z'' 1]]))) = [1, 2, 3]"
    "\<exists>H. snd (getTokenHolders_p0 ''M''
      ([exPage [exAccount ''x'' 3], exPage [exAccount ''x'' 4]]
         @ exPage [] # [exPage [exAccount ''z'' 1]])) = Some (Inr H)"
    by metis+
  from e d a1 a2 show ?thesis by blast
qed

text \<open>
  Claim C2, for the fetcher of \<^verbatim>\<open>script.ts\<close>. In any state of the loop a response
  with status 429 is followed by a pause of 1000 ms and a request for the same page, and
  the loop goes on from the same page and the same map of holders: the outcome of the fetch
  is the one without that response. No fetch throws the error of a status 429.
\<close>

theorem rate_limited_page_is_retried:
  "(rateLimited r \<longrightarrow>
      (\<exists>tr. fst (fetchPages m price page holders (r # rs))
               = Fetch m page # Wait 1000 # Fetch m page # tr) \<and>
      snd (fetchPages m price page holders (r # rs)) = snd (fetchPages m price page holders rs) \<and>
      snd (getTokenHolders m price (pre @ r # post)) = snd (getTokenHolders m price (pre @ post))) \<and>
   snd (getTokenHolders m price rs) \<noteq> Some (Inl (FetchError 429 msg))"
proof (intro conjI impI)
  assume rl: "rateLimited r"
  then have nok: "\<not> ok r" "status r = 429"
    by (simp_all add: rateLimited_def ok_def)
  from fetchPages_starts [of m price page holders rs] obtain tr where
    "fst (fetchPages m price page holders rs) = Fetch m page # tr" by blast
  with nok show "\<exists>tr. fst (fetchPages m price page holders (r # rs))
               = Fetch m page # Wait 1000 # Fetch m page # tr"
    by (auto split: prod.splits)
  from nok show "snd (fetchPages m price page holders (r # rs))
      = snd (fetchPages m price page holders rs)"
    by (simp split: prod.splits)
  show "snd (getTokenHolders m price (pre @ r # post)) = snd (getTokenHolders m price (pre @ post))"
    by (simp only: getTokenHolders_snd fetchPages_skip_rateLimited [OF rl])
next
  show "snd (getTokenHolders m price rs) \<noteq> Some (Inl (FetchError 429 msg))"
    using fetchPages_never_throws_429 [of m price 1 "[]" rs msg]
    by (auto simp: getTokenHolders_snd split: option.splits sum.splits)
qed

theorem rate_limited_page_is_retried_witness:
  "rateLimited (exFailure 429) \<and>
   (\<exists>tr. fst (fetchPages ''M'' 2 1 [] (exFailure 429 # [exPage []]))
           = Fetch ''M'' 1 # Wait 1000 # Fetch ''M'' 1 # tr) \<and>
   snd (getTokenHolders ''M'' 2 ([exPage [exAccount ''x'' 3]] @ exFailure 429 # [exPage []]))
     = Some (Inr [exHolder ''x'' 3 (Some 6)])"
proof -
  have h: "rateLimited (exFailure 429)"
    by (simp add: rateLimited_def exFailure_def)
  have v: "snd (getTokenHolders ''M'' 2 ([exPage [exAccount ''x'' 3]] @ [exPage []]))
             = Some (Inr [exHolder ''x'' 3 (Some 6)])"
    by (simp add: run_simps)
  note t = rate_limited_page_is_retried
      [where r = "exFailure 429" and m = "''M''" and price = 2 and page = 1 and holders = "[]"
         and rs = "[exPage []]" and pre = "[exPage [exAccount ''x'' 3]]" and post = "[exPage []]"]
  from h t have
    "\<exists>tr. fst (fetchPages ''M'' 2 1 [] (exFailure 429 # [exPage []]))
           = Fetch ''M'' 1 # Wait 1000 # Fetch ''M'' 1 # tr"
    "snd (getTokenHolders ''M'' 2 ([exPage [exAccount ''x'' 3]] @ exFailure 429 # [exPage []]))
       = snd (getTokenHolders ''M'' 2 ([exPage [exAccount ''x'' 3]] @ [exPage []]))"
    by blast+
  with h v show ?thesis by simp
qed

text \<open>
  The claim as it is written covers every fetcher, and the fetcher of the second script
  throws on a status 429 as on any other failed status.
\<close>

theorem rate_limited_page_counterexample:
  "rateLimited (exFailure 429) \<and>
   snd (getTokenHolders_p0 ''M'' [exFailure 429]) = Some (Inl (FetchError 429 ''failed''))"
  by (simp add: rateLimited_def run_simps)

text \<open>
  Claim C9, as the code has it. The addresses of the holders a fetch returns are exactly the
  owners of the records read. The balance of such an address is the running sum of doubles
  of the amounts of its records: it is zero when all of them are zero, and nothing in the
  fetcher removes the address then; it is positive when they are doubles, none negative and
  one positive.
\<close>

theorem holders_are_the_owners_read:
  "(snd (getTokenHolders m price rs) = Some (Inr H) \<longrightarrow>
      TokenHolder.address ` set H = TokenAccount.owner ` set (recordsRead rs) \<and>
      (\<forall>h \<in> set H.
         TokenHolder.amount h = balanceOf (recordsRead rs) (TokenHolder.address h) \<and>
         ((\<forall>x \<in> set (recordsOf (recordsRead rs) (TokenHolder.address h)).
              TokenAccount.amount x = 0) \<longrightarrow>
          TokenHolder.amount h = 0) \<and>
         ((\<forall>x \<in> set (recordsOf (recordsRead rs) (TokenHolder.address h)).
              isDouble (TokenAccount.amount x) \<and> 0 \<le> TokenAccount.amount x) \<and>
          (\<exists>x \<in> set (recordsOf (recordsRead rs) (TokenHolder.address h)).
              0 < TokenAccount.amount x) \<longrightarrow>
          0 < TokenHolder.amount h))) \<and>
   (snd (getTokenHolders_p0 m rs) = Some (Inr H0) \<longrightarrow>
      TokenHolder.address ` set H0 = TokenAccount.owner ` set (recordsRead rs) \<and>
      (\<forall>h \<in> set H0.
         TokenHolder.amount h = balanceOf (recordsRead rs) (TokenHolder.address h) \<and>
         ((\<forall>x \<in> set (recordsOf (recordsRead rs) (TokenHolder.address h)).
              TokenAccount.amount x = 0) \<longrightarrow>
          TokenHolder.amount h = 0) \<and>
         ((\<forall>x \<in> set (recordsOf (recordsRead rs) (TokenHolder.address h)).
              isDouble (TokenAccount.amount x) \<and> 0 \<le> TokenAccount.amount x) \<and>
          (\<exists>x \<in> set (recordsOf (recordsRead rs) (TokenHolder.address h)).
              0 < TokenAccount.amount x) \<longrightarrow>
          0 < TokenHolder.amount h)))"
proof (intro conjI impI)
  assume "snd (getTokenHolders m price rs) = Some (Inr H)"
  note r = getTokenHolders_result(2) [OF this]
  from r show "TokenHolder.address ` set H = TokenAccount.owner ` set (recordsRead rs)"
    by (force simp: holderFor_def image_image)
  show "\<forall>h \<in> set H.
         TokenHolder.amount h = balanceOf (recordsRead rs) (TokenHolder.address h) \<and>
         ((\<forall>x \<in> set (recordsOf (recordsRead rs) (TokenHolder.address h)).
              TokenAccount.amount x = 0) \<longrightarrow>
          TokenHolder.amount h = 0) \<and>
         ((\<forall>x \<in> set (recordsOf (recordsRead rs) (TokenHolder.address h)).
              isDouble (TokenAccount.amount x) \<and> 0 \<le> TokenAccount.amount x) \<and>
          (\<exists>x \<in> set (recordsOf (recordsRead rs) (TokenHolder.address h)).
              0 < TokenAccount.amount x) \<longrightarrow>
          0 < TokenHolder.amount h)"
  proof
    fix h
    assume "h \<in> set H"
    then have h: "TokenHolder.amount h = balanceOf (recordsRead rs) (TokenHolder.address h)"
      unfolding r by (auto simp: holderFor_def)
    show "TokenHolder.amount h = balanceOf (recordsRead rs) (TokenHolder.address h) \<and>
         ((\<forall>x \<in> set (recordsOf (recordsRead rs) (TokenHolder.address h)).
              TokenAccount.amount x = 0) \<longrightarrow>
          TokenHolder.amount h = 0) \<and>
         ((\<forall>x \<in> set (recordsOf (recordsRead rs) (TokenHolder.address h)).
              isDouble (TokenAccount.amount x) \<and> 0 \<le> TokenAccount.amount x) \<and>
          (\<exists>x \<in> set (recordsOf (recordsRead rs) (TokenHolder.address h)).
              0 < TokenAccount.amount x) \<longrightarrow>
          0 < TokenHolder.amount h)"
      unfolding h using balanceOf_zero balanceOf_positive by blast
  qed
next
  assume "snd (getTokenHolders_p0 m rs) = Some (Inr H0)"
  note r = getTokenHolders_p0_result(2) [OF this]
  from r show "TokenHolder.address ` set H0 = TokenAccount.owner ` set (recordsRead rs)"
    by (force simp: holderFor_p0_def image_image)
  show "\<forall>h \<in> set H0.
         TokenHolder.amount h = balanceOf (recordsRead rs) (TokenHolder.address h) \<and>
         ((\<forall>x \<in> set (recordsOf (recordsRead rs) (TokenHolder.address h)).
              TokenAccount.amount x = 0) \<longrightarrow>
          TokenHolder.amount h = 0) \<and>
         ((\<forall>x \<in> set (recordsOf (recordsRead rs) (TokenHolder.address h)).
              isDouble (TokenAccount.amount x) \<and> 0 \<le> TokenAccount.amount x) \<and>
          (\<exists>x \<in> set (recordsOf (recordsRead rs) (TokenHolder.address h)).
              0 < TokenAccount.amount x) \<longrightarrow>
          0 < TokenHolder.amount h)"
  proof
    fix h
    assume "h \<in> set H0"
    then have h: "TokenHolder.amount h = balanceOf (recordsRead rs) (TokenHolder.address h)"
      unfolding r by (auto simp: holderFor_p0_def)
    show "TokenHolder.amount h = balanceOf (recordsRead rs) (TokenHolder.address h) \<and>
         ((\<forall>x \<in> set (recordsOf (recordsRead rs) (TokenHolder.address h)).
              TokenAccount.amount x = 0) \<longrightarrow>
          TokenHolder.amount h = 0) \<and>
         ((\<forall>x \<in> set (recordsOf (recordsRead rs) (TokenHolder.address h)).
              isDouble (TokenAccount.amount x) \<and> 0 \<le> TokenAccount.amount x) \<and>
          (\<exists>x \<in> set (recordsOf (recordsRead rs) (TokenHolder.address h)).
              0 < TokenAccount.amount x) \<longrightarrow>
          0 < TokenHolder.amount h)"
      unfolding h using balanceOf_zero balanceOf_positive by blast
  qed
qed

theorem holders_are_the_owners_read_witness:
  "snd (getTokenHolders ''M'' 2
          [exPage [exAccount ''x'' 0, exAccount ''x'' 5, exAccount ''y'' 0], exPage []])
     = Some (Inr [exHolder ''x'' 5 (Some 10), exHolder ''y'' 0 (Some 0)]) \<and>
   TokenHolder.address ` set [exHolder ''x'' 5 (Some 10), exHolder ''y'' 0 (Some 0)]
     = TokenAccount.owner `
         set (recordsRead [exPage [exAccount ''x'' 0, exAccount ''x'' 5, exAccount ''y'' 0],
                           exPage []]) \<and>
   recordsOf (recordsRead [exPage [exAccount ''x'' 0, exAccount ''x'' 5, exAccount ''y'' 0],
                           exPage []]) ''x'' = [exAccount ''x'' 0, exAccount ''x'' 5] \<and>
   isDouble 0 \<and> isDouble 5 \<and>
   0 < TokenHolder.amount (exHolder ''x'' 5 (Some 10)) \<and>
   TokenHolder.amount (exHolder ''y'' 0 (Some 0)) = 0 \<and>
   snd (getTokenHolders_p0 ''M''
          [exPage [exAccount ''x'' 0, exAccount ''x'' 5, exAccount ''y'' 0], exPage []])
     = Some (Inr [exHolder ''x'' 5 None, exHolder ''y'' 0 None]) \<and>
   TokenHolder.address ` set [exHolder ''x'' 5 None, exHolder ''y'' 0 None]
     = TokenAccount.owner `
         set (recordsRead [exPage [exAccount ''x'' 0, exAccount ''x'' 5, exAccount ''y'' 0],
                           exPage []]) \<and>
   0 < TokenHolder.amount (exHolder ''x'' 5 None) \<and>
   TokenHolder.amount (exHolder ''y'' 0 None) = 0"
proof -
  let ?rs = "[exPage [exAccount ''x'' 0, exAccount ''x'' 5, exAccount ''y'' 0], exPage []]"
  let ?H = "[exHolder ''x'' 5 (Some 10), exHolder ''y'' 0 (Some 0)]"
  let ?Hp = "[exHolder ''x'' 5 None, exHolder ''y'' 0 None]"
  have h1: "snd (getTokenHolders ''M'' 2 ?rs) = Some (Inr ?H)"
    by (simp add: run_simps)
  have h2: "snd (getTokenHolders_p0 ''M'' ?rs) = Some (Inr ?Hp)"
    by (simp add: run_simps)
  have rx: "recordsOf (recordsRead ?rs) ''x'' = [exAccount ''x'' 0, exAccount ''x'' 5]"
    and ry: "recordsOf (recordsRead ?rs) ''y'' = [exAccount ''y'' 0]"
    by (simp_all add: recordsOf_def recordsRead_def dataPage_def accountsOf_def ok_def
          exPage_def exAccount_def)
  have d: "isDouble 0" "isDouble 5"
    by (simp_all add: isDouble_def)
  have px: "(\<forall>x \<in> set (recordsOf (recordsRead ?rs) ''x'').
               isDouble (TokenAccount.amount x) \<and> 0 \<le> TokenAccount.amount x) \<and>
            (\<exists>x \<in> set (recordsOf (recordsRead ?rs) ''x''). 0 < TokenAccount.amount x)"
    unfolding rx using d by (simp add: exAccount_def)
  have py: "\<forall>x \<in> set (recordsOf (recordsRead ?rs) ''y''). TokenAccount.amount x = 0"
    unfolding ry by (simp add: exAccount_def)
  have ax: "TokenHolder.address (exHolder ''x'' 5 (Some 10)) = ''x''"
    "TokenHolder.address (exHolder ''y'' 0 (Some 0)) = ''y''"
    "TokenHolder.address (exHolder ''x'' 5 None) = ''x''"
    "TokenHolder.address (exHolder ''y'' 0 None) = ''y''"
    by (simp_all add: exHolder_def)
  note t = holders_are_the_owners_read
      [where m = "''M''" and price = 2 and rs = ?rs and H = ?H and H0 = ?Hp]
  from t h1 have a: "TokenHolder.address ` set ?H = TokenAccount.owner ` set (recordsRead ?rs)"
    by blast
  from t h2 have a0: "TokenHolder.address ` set ?Hp = TokenAccount.owner ` set (recordsRead ?rs)"
    by blast
  have m: "exHolder ''x'' 5 (Some 10) \<in> set ?H" "exHolder ''y'' 0 (Some 0) \<in> set ?H"
    "exHolder ''x'' 5 None \<in> set ?Hp" "exHolder ''y'' 0 None \<in> set ?Hp"
    by simp_all
  from t h1 have c1: "\<forall>h \<in> set ?H.
         ((\<forall>x \<in> set (recordsOf (recordsRead ?rs) (TokenHolder.address h)).
              TokenAccount.amount x = 0) \<longrightarrow>
          TokenHolder.amount h = 0) \<and>
         ((\<forall>x \<in> set (recordsOf (recordsRead ?rs) (TokenHolder.address h)).
              isDouble (TokenAccount.amount x) \<and> 0 \<le> TokenAccount.amount x) \<and>
          (\<exists>x \<in> set (recordsOf (recordsRead ?rs) (TokenHolder.address h)).
              0 < TokenAccount.amount x) \<longrightarrow>
          0 < TokenHolder.amount h)"
    by blast
  from t h2 have c2: "\<forall>h \<in> set ?Hp.
         ((\<forall>x \<in> set (recordsOf (recordsRead ?rs) (TokenHolder.address h)).
              TokenAccount.amount x = 0) \<longrightarrow>
          TokenHolder.amount h = 0) \<and>
         ((\<forall>x \<in> set (recordsOf (recordsRead ?rs) (TokenHolder.address h)).
              isDouble (TokenAccount.amount x) \<and> 0 \<le> TokenAccount.amount x) \<and>
          (\<exists>x \<in> set (recordsOf (recordsRead ?rs) (TokenHolder.address h)).
              0 < TokenAccount.amount x) \<longrightarrow>
          0 < TokenHolder.amount h)"
    by blast
  from bspec [OF c1 m(1)] px have b1: "0 < TokenHolder.amount (exHolder ''x'' 5 (Some 10))"
    unfolding ax by blast
  from bspec [OF c1 m(2)] py have b2: "TokenHolder.amount (exHolder ''y'' 0 (Some 0)) = 0"
    unfolding ax by blast
  from bspec [OF c2 m(3)] px have b3: "0 < TokenHolder.amount (exHolder ''x'' 5 None)"
    unfolding ax by blast
  from bspec [OF c2 m(4)] py have b4: "TokenHolder.amount (exHolder ''y'' 0 None) = 0"
    unfolding ax by blast
  from h1 h2 a a0 rx d b1 b2 b3 b4 show ?thesis by blast
qed

text \<open>
  The claim as it is written fails on an account with amount 0: its owner is returned as a
  holder with balance 0, by either fetcher.
\<close>

theorem zero_balance_holder_counterexample:
  "snd (getTokenHolders ''M'' 2 [exPage [exAccount ''x'' 0], exPage []])
     = Some (Inr [exHolder ''x'' 0 (Some 0)]) \<and>
   snd (getTokenHolders_p0 ''M'' [exPage [exAccount ''x'' 0], exPage []])
     = Some (Inr [exHolder ''x'' 0 None])"
  by (simp add: run_simps)

section \<open>Claims about the aggregation\<close>

text \<open>
  Claim C3. A response whose status is neither successful nor 429, reached after pages of
  data and rate-limited responses only, makes the fetch throw the error of that status: the
  request it answers is the last one and no holders are returned. When the fetch of one
  token throws after the fetches of the tokens before it returned, the aggregation throws
  the same error and returns nothing; its events are those of the fetches so far, so the
  tokens after it are never fetched.
\<close>

theorem fatal_status_fails_the_run:
  "(\<not> ok r \<and> \<not> rateLimited r \<and> (\<forall>x \<in> set pre. rateLimited x \<or> dataPage x) \<longrightarrow>
      snd (getTokenHolders m price (pre @ r # post))
        = Some (Inl (FetchError (status r) (statusText r))) \<and>
      length (pagesRequested (fst (getTokenHolders m price (pre @ r # post)))) = length pre + 1) \<and>
   ((\<forall>x \<in> set before. \<exists>H. fetchOutcome x = Some (Inr H)) \<and> fetchOutcome x = Some (Inl e) \<and>
    minTokensRequired \<le> real (length (before @ x # after)) \<longrightarrow>
      snd (findHoldersWithMinTokens (before @ x # after) minTokensRequired) = Some (Inl e) \<and>
      fst (findHoldersWithMinTokens (before @ x # after) minTokensRequired)
        = concat (map (\<lambda>y. fetchTrace y @ [Wait 100]) before) @ fetchTrace x)"
proof (intro conjI impI)
  assume a: "\<not> ok r \<and> \<not> rateLimited r \<and> (\<forall>x \<in> set pre. rateLimited x \<or> dataPage x)"
  then have f: "snd (fetchPages m price 1 [] (pre @ r # post))
           = Some (Inl (FetchError (status r) (statusText r))) \<and>
         length (pagesRequested (fst (fetchPages m price 1 [] (pre @ r # post))))
           = length pre + 1"
    by (intro fetchPages_fatal) simp_all
  then show "snd (getTokenHolders m price (pre @ r # post))
        = Some (Inl (FetchError (status r) (statusText r)))"
    by (simp add: getTokenHolders_snd)
  from f show
    "length (pagesRequested (fst (getTokenHolders m price (pre @ r # post)))) = length pre + 1"
    by (simp add: getTokenHolders_fst)
next
  assume a: "(\<forall>x \<in> set before. \<exists>H. fetchOutcome x = Some (Inr H)) \<and>
    fetchOutcome x = Some (Inl e) \<and> minTokensRequired \<le> real (length (before @ x # after))"
  then have l: "snd (tokenLoop (before @ x # after) [] []) = Some (Inl e) \<and>
         fst (tokenLoop (before @ x # after) [] [])
           = concat (map (\<lambda>y. fetchTrace y @ [Wait 100]) before) @ fetchTrace x"
    by (intro tokenLoop_fails) simp_all
  from a have m: "\<not> minTokensRequired > real (length (before @ x # after))" by simp
  from l m show
    "snd (findHoldersWithMinTokens (before @ x # after) minTokensRequired) = Some (Inl e)"
    by (simp only: findHoldersWithMinTokens_snd if_False option.case sum.case)
  from l m show "fst (findHoldersWithMinTokens (before @ x # after) minTokensRequired)
        = concat (map (\<lambda>y. fetchTrace y @ [Wait 100]) before) @ fetchTrace x"
    by (simp only: findHoldersWithMinTokens_fst if_False)
qed

theorem fatal_status_fails_the_run_witness:
  "\<not> ok (exFailure 500) \<and> \<not> rateLimited (exFailure 500) \<and>
   dataPage (exPage [exAccount ''x'' 3]) \<and>
   snd (getTokenHolders ''M'' 2 ([exPage [exAccount ''x'' 3]] @ exFailure 500 # [exPage []]))
     = Some (Inl (FetchError 500 ''failed'')) \<and>
   fetchOutcome (exToken ''A'' 2, [exPage [exAccount ''x'' 3], exPage []])
     = Some (Inr [exHolder ''x'' 3 (Some 6)]) \<and>
   fetchOutcome (exToken ''B'' 1, [exFailure 500]) = Some (Inl (FetchError 500 ''failed'')) \<and>
   (1::real) \<le> real (length ([(exToken ''A'' 2, [exPage [exAccount ''x'' 3], exPage []])]
                               @ (exToken ''B'' 1, [exFailure 500])
                               # [(exToken ''C'' 1, [exPage []])])) \<and>
   snd (findHoldersWithMinTokens
          ([(exToken ''A'' 2, [exPage [exAccount ''x'' 3], exPage []])]
             @ (exToken ''B'' 1, [exFailure 500]) # [(exToken ''C'' 1, [exPage []])]) 1)
     = Some (Inl (FetchError 500 ''failed''))"
proof -
  have r: "\<not> ok (exFailure 500)" "\<not> rateLimited (exFailure 500)"
    "dataPage (exPage [exAccount ''x'' 3])"
    by (simp_all add: ok_def rateLimited_def dataPage_def exFailure_def exPage_def)
  have s: "status (exFailure 500) = 500" "statusText (exFailure 500) = ''failed''"
    by (simp_all add: exFailure_def)
  have a: "fetchOutcome (exToken ''A'' 2, [exPage [exAccount ''x'' 3], exPage []])
             = Some (Inr [exHolder ''x'' 3 (Some 6)])"
    by (simp add: fetchOutcome_def run_simps)
  have b: "fetchOutcome (exToken ''B'' 1, [exFailure 500])
             = Some (Inl (FetchError 500 ''failed''))"
    by (simp add: fetchOutcome_def run_simps)
  have n: "(1::real) \<le> real (length ([(exToken ''A'' 2, [exPage [exAccount ''x'' 3], exPage []])]
                               @ (exToken ''B'' 1, [exFailure 500])
                               # [(exToken ''C'' 1, [exPage []])]))"
    by simp
  from r have pre: "\<forall>x \<in> set [exPage [exAccount ''x'' 3]]. rateLimited x \<or> dataPage x"
    by simp
  from a have before:
    "\<forall>x \<in> set [(exToken ''A'' 2, [exPage [exAccount ''x'' 3], exPage []])].
       \<exists>H. fetchOutcome x = Some (Inr H)"
    by simp
  note t = fatal_status_fails_the_run
      [where r = "exFailure 500" and pre = "[exPage [exAccount ''x'' 3]]" and m = "''M''"
         and price = 2 and post = "[exPage []]"
         and before = "[(exToken ''A'' 2, [exPage [exAccount ''x'' 3], exPage []])]"
         and x = "(exToken ''B'' 1, [exFailure 500])"
         and e = "FetchError 500 ''failed''" and minTokensRequired = 1
         and after = "[(exToken ''C'' 1, [exPage []])]"]
  from t r(1,2) pre s have c1:
    "snd (getTokenHolders ''M'' 2 ([exPage [exAccount ''x'' 3]] @ exFailure 500 # [exPage []]))
       = Some (Inl (FetchError 500 ''failed''))"
    by simp
  from t before b n have c2:
    "snd (findHoldersWithMinTokens
          ([(exToken ''A'' 2, [exPage [exAccount ''x'' 3], exPage []])]
             @ (exToken ''B'' 1, [exFailure 500]) # [(exToken ''C'' 1, [exPage []])]) 1)
     = Some (Inl (FetchError 500 ''failed''))"
    by blast
  from r a b n c1 c2 show ?thesis by blast
qed

text \<open>
  Claim C7. When the minimum asked for is above the number of tokens, the aggregation throws
  its error about the minimum and its list of events is empty: nothing was fetched and
  nothing was waited for.
\<close>

theorem minimum_above_token_count_is_rejected:
  "minTokensRequired > real (length tokens) \<Longrightarrow>
   findHoldersWithMinTokens tokens minTokensRequired = ([], Some (Inl MinTokensError))"
  by (simp add: findHoldersWithMinTokens_def)

theorem minimum_above_token_count_is_rejected_witness:
  "(5::real) > real (length [(exToken ''A'' 1, [exPage []]), (exToken ''B'' 1, [exPage []]),
                             (exToken ''C'' 1, [exPage []])]) \<and>
   findHoldersWithMinTokens
     [(exToken ''A'' 1, [exPage []]), (exToken ''B'' 1, [exPage []]),
      (exToken ''C'' 1, [exPage []])] 5 = ([], Some (Inl MinTokensError))"
proof -
  have h: "(5::real) > real (length [(exToken ''A'' 1, [exPage []]),
                                     (exToken ''B'' 1, [exPage []]),
                                     (exToken ''C'' 1, [exPage []])])"
    by simp
  from h minimum_above_token_count_is_rejected [OF h] show ?thesis by blast
qed

text \<open>
  Claim C10. \<^verbatim>\<open>findCommonHolders\<close> on the empty list of tokens does not return: the first
  element of the per-token address sets is absent and spreading it throws a
  \<^verbatim>\<open>TypeError\<close>.
\<close>

theorem common_holders_of_no_tokens_throws: "findCommonHolders [] = Some (Inl TypeError)"
  by (simp add: findCommonHolders_def)

section \<open>Claims about the two selection policies\<close>

lemmas agg_simps = findHoldersWithMinTokens_def tally_def fetchOutcome_def fetchOutcome_p0_def
  findCommonHolders_def new_Set_def exTokens_def exAddresses_def exRepeated_def




text \<open>
  Claim C5, for a list of at least one token. When the fetches of the two scripts return,
  token by token, holders with the same addresses, the threshold aggregation with the
  number of tokens as minimum and the intersection both return, and the addresses of the
  qualified holders are exactly the common holders.
\<close>

theorem threshold_of_all_tokens_is_intersection:
  assumes "tokens \<noteq> []" and "list_all2 sameHolders tokens tokenAddresses"
  shows "\<exists>q d c d0.
           snd (findHoldersWithMinTokens tokens (real (length tokens))) = Some (Inr (q, d)) \<and>
           findCommonHolders tokenAddresses = Some (Inr (c, d0)) \<and>
           HolderSummary.address ` set q = set c"
proof -
  from assms(2) have len: "length tokens = length tokenAddresses"
    by (rule list_all2_lengthD)
  with assms(1) have ne: "tokenAddresses \<noteq> []" by auto
  from sameHolders_all [OF assms(2)]
  have all: "\<forall>x \<in> set tokens. \<exists>H. fetchOutcome x = Some (Inr H)"
    and all0: "\<forall>y \<in> set tokenAddresses. \<exists>H0. fetchOutcome_p0 y = Some (Inr H0)"
    by blast+
  from findHoldersWithMinTokens_returns [OF all, of "real (length tokens)"] obtain q d where
    r: "snd (findHoldersWithMinTokens tokens (real (length tokens))) = Some (Inr (q, d))"
    by auto
  from findCommonHolders_returns [OF all0 ne] obtain c d0 where
    r0: "findCommonHolders tokenAddresses = Some (Inr (c, d0))" and
    c: "set c = (\<Inter>y \<in> set tokenAddresses. TokenHolder.address ` set (holdersFetched_p0 y))"
    by blast
  have flen: "length (fetched tokens) = length tokens" by (simp add: fetched_def)
  have "a \<in> HolderSummary.address ` set q \<longleftrightarrow> a \<in> set c" for a
  proof -
    have "a \<in> HolderSummary.address ` set q \<longleftrightarrow>
            0 < tokensHeld (fetched tokens) a \<and>
            real (length tokens) \<le> real (tokensHeld (fetched tokens) a)"
      using qualifiedHolders_facts(3) [OF r] by blast
    also have "\<dots> \<longleftrightarrow> tokensHeld (fetched tokens) a = length (fetched tokens)"
      using tokensHeld_le [of "fetched tokens" a] assms(1) by (auto simp: flen)
    also have "\<dots> \<longleftrightarrow> (\<forall>x \<in> set (fetched tokens). holds a x)"
      by (rule tokensHeld_all)
    also have "\<dots> \<longleftrightarrow> a \<in> set c"
      unfolding c by (rule sameHolders_Inter [OF assms(2)])
    finally show ?thesis .
  qed
  then have "HolderSummary.address ` set q = set c" by blast
  with r r0 show ?thesis by blast
qed

theorem threshold_of_all_tokens_is_intersection_witness:
  "exTokens \<noteq> [] \<and> list_all2 sameHolders exTokens exAddresses \<and>
   findCommonHolders exAddresses
     = Some (Inr ([''x''],
          [(''A'', [exHolder ''x'' 3 None, exHolder ''y'' 1 None]),
           (''B'', [exHolder ''x'' 4 None])])) \<and>
   (\<exists>q d. snd (findHoldersWithMinTokens exTokens (real (length exTokens))) = Some (Inr (q, d)) \<and>
      HolderSummary.address ` set q = set [''x''])"
proof -
  have ne: "exTokens \<noteq> []"
    by (simp add: exTokens_def)
  have same: "list_all2 sameHolders exTokens exAddresses"
    by (simp add: sameHolders_def agg_simps run_simps)
  have c: "findCommonHolders exAddresses
     = Some (Inr ([''x''],
          [(''A'', [exHolder ''x'' 3 None, exHolder ''y'' 1 None]),
           (''B'', [exHolder ''x'' 4 None])]))"
    by (simp add: agg_simps run_simps)
  from threshold_of_all_tokens_is_intersection [OF ne same] c
  have "\<exists>q d. snd (findHoldersWithMinTokens exTokens (real (length exTokens)))
                  = Some (Inr (q, d)) \<and>
               HolderSummary.address ` set q = set [''x'']"
    by auto
  with ne same c show ?thesis by blast
qed

text \<open>
  The claim as it is written covers the empty list of tokens, where the threshold
  aggregation with minimum 0 returns no holders and the intersection throws.
\<close>

theorem threshold_of_no_tokens_counterexample:
  "snd (findHoldersWithMinTokens [] (real (length ([] :: (TokenInfo \<times> response list) list))))
     = Some (Inr ([], [])) \<and>
   findCommonHolders [] = Some (Inl TypeError)"
  by (simp add: findHoldersWithMinTokens_def findCommonHolders_def array_sort_def)

section \<open>Claim about the rate limiter\<close>

lemmas limiter_simps = run.simps processQueue.simps start_def addToQueue_def issue_def
  throttle_def setTimeout_def elapse_def resetCounter_def Let_def
  MIN_TIME_BETWEEN_REQUESTS_def MAX_REQUESTS_PER_SECOND_def exJob_def

text \<open>
  Claim C8, as the code has it. Let no timer resume more than \<open>early\<close> milliseconds early,
  with \<open>early\<close> at most 109, and let a task take no negative time. For every list of tasks,
  whenever each is submitted and however long each takes, every dispatch is at least
  125 ms (1000 / 8) less \<open>early\<close> after the one before, no window of one second, both ends
  included, holds more than 8 dispatches, and every task is dispatched.
\<close>

theorem dispatches_are_spaced_and_bounded:
  assumes "early \<le> 109" and "earlyBy early skews"
  shows
  "spaced (125 - early) (dispatched (run (start t0 tasks skews))) \<and>
   length (filter (\<lambda>x. t \<le> x \<and> x \<le> t + 1000) (dispatched (run (start t0 tasks skews))))
     \<le> 8 \<and>
   length (dispatched (run (start t0 tasks skews))) = length tasks"
proof -
  have "paced early (start t0 tasks skews)"
    using assms(2) by (simp add: paced_def spaced_def start_def)
  from paced_run [OF assms(1) this] have p: "paced early (run (start t0 tasks skews))" .
  then have s: "spaced (125 - early) (dispatched (run (start t0 tasks skews)))"
    by (simp add: paced_def MIN_TIME_BETWEEN_REQUESTS_def MAX_REQUESTS_PER_SECOND_def)
  from p have "length (filter (\<lambda>x. t \<le> x \<and> x \<le> t + 1000)
                      (dispatched (run (start t0 tasks skews)))) \<le> MAX_REQUESTS_PER_SECOND"
    by (intro window_bound [of "MIN_TIME_BETWEEN_REQUESTS - early"]) (simp_all add: paced_def)
  then have w: "length (filter (\<lambda>x. t \<le> x \<and> x \<le> t + 1000)
                      (dispatched (run (start t0 tasks skews)))) \<le> 8"
    by (simp add: MAX_REQUESTS_PER_SECOND_def)
  have "idle (start t0 tasks skews)"
    by (simp add: idle_def start_def)
  from run_all [OF this]
  have "queue (limiter (run (start t0 tasks skews))) = []"
    "arrivals (run (start t0 tasks skews)) = []"
    "total (run (start t0 tasks skews)) = total (start t0 tasks skews)"
    by (simp_all add: idle_def)
  moreover have "total (start t0 tasks skews) = length tasks"
    by (simp add: total_def waiting_def start_def)
  ultimately have "length (dispatched (run (start t0 tasks skews))) = length tasks"
    by (simp add: total_def waiting_def)
  with s w show ?thesis by simp
qed

theorem dispatches_are_spaced_and_bounded_witness:
  "earlyBy 1 [- 1] \<and>
   dispatched (run (start 0 [exJob, exJob] [- 1])) = [124, 0] \<and>
   spaced (125 - 1) (dispatched (run (start 0 [exJob, exJob] [- 1]))) \<and>
   length (filter (\<lambda>x. 0 \<le> x \<and> x \<le> 0 + 1000) (dispatched (run (start 0 [exJob, exJob] [- 1]))))
     \<le> 8 \<and>
   length (dispatched (run (start 0 [exJob, exJob] [- 1]))) = length [exJob, exJob]"
proof -
  have e: "earlyBy 1 [- 1]" by (simp add: earlyBy_def)
  have d: "dispatched (run (start 0 [exJob, exJob] [- 1])) = [124, 0]"
    by (simp add: limiter_simps)
  from dispatches_are_spaced_and_bounded
         [where early = 1 and skews = "[- 1]" and ?t0.0 = 0 and tasks = "[exJob, exJob]"
            and t = 0] e d
  show ?thesis by simp
qed

text \<open>
  The claim as it is written fails when a timer resumes a millisecond early: of two tasks
  that settle at once, the second is dispatched 124 ms after the first.
\<close>

theorem early_timer_spacing_counterexample:
  "dispatched (run (start 0 [exJob, exJob] [- 1])) = [124, 0] \<and>
   \<not> spaced 125 (dispatched (run (start 0 [exJob, exJob] [- 1])))"
  by (simp add: limiter_simps spaced_def)

end
